theory Spec2Isabelle
  imports Complex_Main "HOL-Library.Word" "HOL-Library.Signed_Division"
begin

unbundle bit_operations_syntax

chapter \<open>VoiceTuber: the chat overlay, the sprite and the project core\<close>

text \<open>
  A shallow embedding of three translation units of the editor: \<^verbatim>\<open>chat.cpp\<close> (the chat
  overlay with its text-to-speech helpers), \<^verbatim>\<open>sprite.cpp\<close> (the sprite-sheet node) and
  \<^verbatim>\<open>app.cpp\<close> (the orchestrator: project load and save, adding nodes, undo). Undefined
  behaviour of the C++ (an integer division by zero or overflow, a null or dangling
  dereference, a read past the end of an array) is a value of \<open>error\<close>, and so is an
  exception that is thrown; a function that can reach one returns \<open>error + 'a\<close>.
\<close>

datatype error =
    DivisionByZero
  | SignedOverflow
  | NullDeref
  | UseAfterFree
  | OutOfBounds
  | Malformed
  | OutOfFuel
  | RuntimeError string

section \<open>chat.cpp: collapsing repeated word runs\<close>

text \<open>
  \<open>eq\<close> (lines 43--53) compares the block of \<open>w\<close> words at \<open>i\<close> with the block at \<open>j\<close>,
  and is false when either block runs past the end of the vector.
\<close>

definition eq_words :: "string list \<Rightarrow> nat \<Rightarrow> nat \<Rightarrow> nat \<Rightarrow> bool" where
  "eq_words words i j w =
     (if i + w > length words then False
      else if j + w > length words then False
      else list_all (\<lambda>k. words ! (i + k) = words ! (j + k)) [0..<w])"

text \<open>
  \<open>std::vector::erase(first, last)\<close> on the index range \<open>[a, b)\<close>; a range that is not
  within the vector is undefined and gives \<open>None\<close>.
\<close>

definition erase :: "'a list \<Rightarrow> nat \<Rightarrow> nat \<Rightarrow> 'a list option" where
  "erase xs a b = (if a \<le> b \<and> b \<le> length xs then Some (take a xs @ drop b xs) else None)"

text \<open>
  The three nested scans of one pass of the fixed-point loop (lines 65--77). Each loop
  also stops once \<open>didUpdate\<close> is set, so a scan returns as soon as one erase has
  happened: \<open>Updated words'\<close> carries the vector after the erase, \<open>NoUpdate\<close> says the loop
  ran to its bound (or, for the innermost loop, reached its \<open>break\<close>), \<open>InvalidErase\<close> that
  the erase was called with an invalid range. The loops are written without any built-in
  bound: a scan that never returns has the value \<open>None\<close>.

  The counters \<open>w\<close>, \<open>i\<close> and \<open>r\<close> are \<open>unsigned\<close> (\<open>auto w = 1U\<close>): 32-bit words, whose
  sums, products and increments wrap. The index \<open>i + r * w\<close> that is passed to \<open>eq\<close> is
  computed in 32 bits; in \<open>std::begin(words) + i + r * w\<close> only the product \<open>r * w\<close> is.
  Sizes are \<open>size_t\<close>: naturals below \<open>2 ^ 64\<close>, and \<open>words.size() - w\<close> wraps modulo
  \<open>2 ^ 64\<close>.
\<close>

definition size_minus :: "nat \<Rightarrow> nat \<Rightarrow> nat" where
  "size_minus a b = (if b \<le> a then a - b else a + 2 ^ 64 - b)"

datatype scan = Updated "string list" | NoUpdate | InvalidErase

partial_function (option) scan_r ::
  "string list \<Rightarrow> 32 word \<Rightarrow> 32 word \<Rightarrow> 32 word \<Rightarrow> scan option"
where
  "scan_r words i w r =
     (if \<not> eq_words words (unat i) (unat (i + r * w)) (unat w)
      then (if r \<ge> 3
            then (case erase words (unat i + unat w) (unat i + unat (r * w)) of
                    Some ws \<Rightarrow> Some (Updated ws)
                  | None \<Rightarrow> Some InvalidErase)
            else Some NoUpdate)
      else scan_r words i w (r + 1))"

partial_function (option) scan_i :: "string list \<Rightarrow> 32 word \<Rightarrow> 32 word \<Rightarrow> scan option" where
  "scan_i words w i =
     (if unat i < size_minus (length words) (unat w)
      then (case scan_r words i w 1 of
              None \<Rightarrow> None
            | Some NoUpdate \<Rightarrow> scan_i words w (i + 1)
            | Some res \<Rightarrow> Some res)
      else Some NoUpdate)"

partial_function (option) scan_w :: "string list \<Rightarrow> 32 word \<Rightarrow> scan option" where
  "scan_w words w =
     (if unat w < length words div 2
      then (case scan_i words w 0 of
              None \<Rightarrow> None
            | Some NoUpdate \<Rightarrow> scan_w words (w + 1)
            | Some res \<Rightarrow> Some res)
      else Some NoUpdate)"

text \<open>The outer loop \<open>for (bool didUpdate = true; didUpdate;)\<close> (lines 62--78).\<close>

partial_function (option) fixloop :: "string list \<Rightarrow> (error + string list) option" where
  "fixloop words =
     (case scan_w words 1 of
        None \<Rightarrow> None
      | Some (Updated ws) \<Rightarrow> fixloop ws
      | Some NoUpdate \<Rightarrow> Some (Inr words)
      | Some InvalidErase \<Rightarrow> Some (Inl OutOfBounds))"

declare scan_r.simps [code] scan_i.simps [code] scan_w.simps [code] fixloop.simps [code]

text \<open>
  \<open>while (std::getline(st, word, ' ')) words.push_back(word)\<close> (lines 59--61): the text
  is cut at every space; a last piece that is empty is not produced, because
  \<open>getline\<close> fails when it extracts nothing at the end of the stream.
\<close>

fun getline_words :: "string \<Rightarrow> string \<Rightarrow> string list" where
  "getline_words word [] = (if word = [] then [] else [word])"
| "getline_words word (c # cs) =
     (if c = CHR '' '' then word # getline_words [] cs else getline_words (word @ [c]) cs)"

text \<open>The joining loop (lines 79--85): a space goes in front of a word once \<open>ret\<close> is not empty.\<close>

definition join_step :: "string \<Rightarrow> string \<Rightarrow> string" where
  "join_step ret w = (if ret \<noteq> [] then ret @ '' '' @ w else w)"

definition join_words :: "string list \<Rightarrow> string" where
  "join_words words = foldl join_step [] words"

definition dedup :: "string \<Rightarrow> (error + string) option" where
  "dedup var = map_option (map_sum id join_words) (fixloop (getline_words [] var))"

text \<open>
  Vocabulary for the properties of \<open>dedup\<close>. \<open>run_at words i w r\<close>: the \<open>r\<close> blocks of
  width \<open>w\<close> that start at \<open>i\<close> all equal the first of them. \<open>tripled\<close>: the block at \<open>i\<close>
  is followed by two copies of itself. \<open>found\<close>: what one erase does, the run being as
  long as it can be. \<open>first_found\<close>: that erase is the first in the order of the scans,
  by width and then by position. \<open>quiet\<close>: no position that the scans visit is tripled.
\<close>

definition run_at :: "string list \<Rightarrow> nat \<Rightarrow> nat \<Rightarrow> nat \<Rightarrow> bool" where
  "run_at ws i w r = (\<forall>q<r. eq_words ws i (i + q * w) w)"

definition tripled :: "string list \<Rightarrow> nat \<Rightarrow> nat \<Rightarrow> bool" where
  "tripled ws i w = (eq_words ws i (i + w) w \<and> eq_words ws i (i + 2 * w) w)"

definition found :: "string list \<Rightarrow> nat \<Rightarrow> nat \<Rightarrow> string list \<Rightarrow> bool" where
  "found ws w i ws' =
     (\<exists>r\<ge>3. run_at ws i w r \<and> \<not> eq_words ws i (i + r * w) w \<and>
        ws' = take (i + w) ws @ drop (i + r * w) ws)"

definition first_found :: "string list \<Rightarrow> nat \<Rightarrow> nat \<Rightarrow> string list \<Rightarrow> bool" where
  "first_found ws w i ws' =
     (1 \<le> w \<and> w < length ws div 2 \<and> i < length ws - w \<and> found ws w i ws' \<and>
      (\<forall>i'<i. \<not> tripled ws i' w) \<and>
      (\<forall>w' i'. 1 \<le> w' \<and> w' < w \<and> i' < length ws - w' \<longrightarrow> \<not> tripled ws i' w'))"

definition quiet :: "string list \<Rightarrow> bool" where
  "quiet ws =
     (\<forall>w i. 1 \<le> w \<and> w < length ws div 2 \<and> i < length ws - w \<longrightarrow> \<not> tripled ws i w)"

text \<open>
  One erase, seen on the words: a run of \<open>r \<ge> 3\<close> copies of a non-empty block becomes one
  copy and the words before and after it stay. The run is whole: no further copy follows
  it and none precedes it. It is the first in scan order: every block that occurs three
  times in a row anywhere in the vector is longer, or as long and no further left.
\<close>

inductive collapse :: "string list \<Rightarrow> string list \<Rightarrow> bool" where
  collapse_run:
    "blk \<noteq> [] \<Longrightarrow> 3 \<le> r \<Longrightarrow> take (length blk) post \<noteq> blk \<Longrightarrow>
     (\<forall>pre'. pre \<noteq> pre' @ blk) \<Longrightarrow>
     (\<forall>p b q. b \<noteq> [] \<and> pre @ concat (replicate r blk) @ post = p @ b @ b @ b @ q \<longrightarrow>
        length blk < length b \<or> (length b = length blk \<and> length pre \<le> length p)) \<Longrightarrow>
     collapse (pre @ concat (replicate r blk) @ post) (pre @ blk @ post)"

section \<open>chat.cpp: the voice of a chatter\<close>

text \<open>
  The part of a \<open>Chat\<close> object that \<open>getVoice\<close>, \<open>render\<close> and \<open>wrapText\<close> read. \<open>'f\<close>
  stands for \<open>float\<close>: the functions below use only its zero, one, sum, difference and
  comparison, and nothing is assumed about them. \<open>getSize\<close> is the font's text measure
  (\<open>font->getSize\<close>, an external collaborator).
\<close>

record 'f Msg =
  displayName :: string
  msg :: string
  color :: "'f \<times> 'f \<times> 'f"

record 'f chat =
  showChat :: bool
  msgs :: "'f Msg list"
  size_x :: 'f
  size_y :: 'f
  getSize :: "string \<Rightarrow> 'f \<times> 'f"
  voices :: "string list"
  voicesMap :: "string \<rightharpoonup> string"

text \<open>
  \<open>Chat::getVoice\<close> (lines 119--125). \<open>std::hash<std::string>\<close> is implementation
  defined and comes in as the parameter \<open>hash\<close> (a 64-bit \<open>size_t\<close>). With an empty
  \<open>voices\<close> the index is a remainder by zero.
\<close>

definition voice_index :: "(string \<Rightarrow> 64 word) \<Rightarrow> 'f chat \<Rightarrow> string \<Rightarrow> nat" where
  "voice_index hash c n = unat (hash n XOR 1) mod length (voices c)"

definition getVoice :: "(string \<Rightarrow> 64 word) \<Rightarrow> 'f chat \<Rightarrow> string \<Rightarrow> error + string" where
  "getVoice hash c n =
     (case voicesMap c n of
        Some v \<Rightarrow> Inr v
      | None \<Rightarrow>
          if length (voices c) = 0 then Inl DivisionByZero
          else Inr (voices c ! voice_index hash c n))"

section \<open>chat.cpp: rendering the overlay\<close>

text \<open>
  A render call is observed through the calls it makes, in order: the OpenGL and font
  calls, and the call of the base class, \<open>Node::render(dt, hovered, selected)\<close>, whose
  body is not part of these sources. Nodes are named by their addresses.
\<close>

datatype 'f call =
    glEnable
  | glBindTexture nat
  | glBegin
  | glColor4f 'f 'f 'f 'f
  | glColor3f 'f 'f 'f
  | glTexCoord2f 'f 'f
  | glVertex3f 'f 'f 'f
  | glEnd
  | glDisable
  | font_render 'f 'f string
  | Node_render 'f "nat option" "nat option"

definition Chat_h :: "'f chat \<Rightarrow> 'f" where
  "Chat_h c = size_y c"

definition Chat_w :: "'f chat \<Rightarrow> 'f" where
  "Chat_w c = size_x c"

text \<open>\<open>iss >> word\<close>: the maximal runs of characters that are not white space.\<close>

definition isspace :: "char \<Rightarrow> bool" where
  "isspace ch = (ch \<in> {CHR '' '', CHR 0x09, CHR 0x0A, CHR 0x0B, CHR 0x0C, CHR 0x0D})"

fun extract_words :: "string \<Rightarrow> string \<Rightarrow> string list" where
  "extract_words word [] = (if word = [] then [] else [word])"
| "extract_words word (c # cs) =
     (if isspace c then (if word = [] then extract_words [] cs else word # extract_words [] cs)
      else extract_words (word @ [c]) cs)"

text \<open>\<open>Chat::wrapText\<close> (lines 188--212); the loop state is \<open>line\<close>, \<open>initOffset\<close>, \<open>lines\<close>.\<close>

fun wrap_loop ::
  "'f::{zero,minus,ord} chat \<Rightarrow> string list \<Rightarrow> string \<Rightarrow> 'f \<Rightarrow> string list \<Rightarrow> string list \<times> string"
where
  "wrap_loop c [] line initOffset lines = (lines, line)"
| "wrap_loop c (word # rest) line initOffset lines =
     (let tempLine = line @ '' '' @ word;
          tempDim = getSize c tempLine
      in if fst tempDim > Chat_w c - initOffset
         then wrap_loop c rest word 0 (lines @ [line])
         else wrap_loop c rest tempLine initOffset lines)"

definition wrapText :: "'f::{zero,minus,ord} chat \<Rightarrow> string \<Rightarrow> 'f \<Rightarrow> string list" where
  "wrapText c text initOffset =
     (let ws = extract_words [] text;
          first = (case ws of [] \<Rightarrow> [] | x # _ \<Rightarrow> x);
          (lines, line) = wrap_loop c (tl ws) first initOffset []
      in if line \<noteq> [] then lines @ [line] else lines)"

text \<open>
  The inner loop of \<open>Chat::render\<close> (lines 167--179) over the wrapped lines, last line
  first; \<open>isLast\<close> holds at the final iteration. It returns the calls made and \<open>y\<close>.
\<close>

fun render_lines ::
  "'f::{zero,plus,ord} chat \<Rightarrow> 'f Msg \<Rightarrow> 'f \<times> 'f \<Rightarrow> string list \<Rightarrow> 'f \<Rightarrow> 'f call list \<times> 'f"
where
  "render_lines c m nameDim [] y = ([], y)"
| "render_lines c m nameDim (wline # rest) y =
     (if y > Chat_h c then ([], y)
      else
        let isLast = (rest = []);
            here =
              font_render (if isLast then fst nameDim else 0) y wline #
              (if isLast
               then [glColor3f (fst (color m)) (fst (snd (color m))) (snd (snd (color m))),
                     font_render 0 y (displayName m)]
               else []);
            (later, y') = render_lines c m nameDim rest (y + snd nameDim)
        in (here @ later, y'))"

text \<open>The outer loop (lines 159--183) over the messages, newest first.\<close>

fun render_msgs ::
  "'f::{zero,one,plus,minus,ord} chat \<Rightarrow> 'f Msg list \<Rightarrow> 'f \<Rightarrow> 'f call list"
where
  "render_msgs c [] y = []"
| "render_msgs c (m # rest) y =
     (let displayNameDim = getSize c (displayName m);
          wrappedLines = wrapText c ('': '' @ msg m) (fst displayNameDim);
          (calls, y') = render_lines c m displayNameDim (rev wrappedLines) y
      in glColor3f 1 1 1 # calls @ (if y' > Chat_h c then [] else render_msgs c rest y'))"

definition Chat_render ::
  "'f::{zero,one,plus,minus,ord} chat \<Rightarrow> 'f \<Rightarrow> nat option \<Rightarrow> nat option \<Rightarrow> 'f call list"
where
  "Chat_render c dt hovered selected =
     (if \<not> showChat c then [Node_render dt hovered selected]
      else render_msgs c (rev (msgs c)) 0 @ [Node_render dt hovered selected])"

definition base_renders :: "'f call list \<Rightarrow> 'f call list" where
  "base_renders calls = filter (\<lambda>c. case c of Node_render _ _ _ \<Rightarrow> True | _ \<Rightarrow> False) calls"

section \<open>sprite.cpp\<close>

text \<open>
  The texture a sprite draws from (\<open>texture->w()\<close>, \<open>h()\<close>, \<open>ch()\<close>, \<open>imageData()\<close>,
  \<open>texture()\<close>) and the fields of \<open>Sprite\<close> that the functions of \<^verbatim>\<open>sprite.cpp\<close> read.
  \<open>int\<close> is modelled by the integers with C's truncating \<open>/\<close> and \<open>%\<close> (\<open>sdiv\<close>, \<open>smod\<close>).
  For the divisions of \<open>w()\<close>, \<open>h()\<close> and \<open>isTransparent\<close>, \<open>float\<close> is modelled by the
  reals and a zero divisor is the error \<open>DivisionByZero\<close>, for \<open>int\<close> (where the division
  is undefined) and for \<open>float\<close> alike (where the quotient is an infinity or a NaN, which
  the reals do not have).
\<close>

record texture =
  tex_w :: int
  tex_h :: int
  tex_ch :: int
  imageData :: "8 word list option"
  tex_handle :: nat

record sprite =
  cols :: int
  rows :: int
  numFrames :: int
  frame :: int
  zOrder :: int
  tex :: texture

text \<open>\<open>Sprite::w\<close> and \<open>Sprite::h\<close> (lines 71--79).\<close>

definition Sprite_w :: "sprite \<Rightarrow> error + real" where
  "Sprite_w s =
     (if cols s = 0 then Inl DivisionByZero else Inr (1 * real_of_int (tex_w (tex s)) / real_of_int (cols s)))"

definition Sprite_h :: "sprite \<Rightarrow> error + real" where
  "Sprite_h s =
     (if rows s = 0 then Inl DivisionByZero else Inr (1 * real_of_int (tex_h (tex s)) / real_of_int (rows s)))"

text \<open>\<open>static_cast<int>\<close> of a \<open>float\<close> truncates towards zero.\<close>

definition to_int :: "real \<Rightarrow> int" where
  "to_int x = (if 0 \<le> x then \<lfloor>x\<rfloor> else \<lceil>x\<rceil>)"

text \<open>
  \<open>Sprite::render\<close> (lines 17--39). The \<open>int\<close> operations \<open>frame % cols\<close> and
  \<open>frame / cols\<close> of lines 24--25 come before any call: they are undefined when \<open>cols\<close> is
  zero, and when \<open>frame\<close> is \<open>INT_MIN\<close> and \<open>cols\<close> is \<open>-1\<close>. Everything else is \<open>float\<close>
  arithmetic, which returns a value whatever its operands are (a division by zero gives
  an infinity or a NaN). Here \<open>'f\<close> stands for \<open>float\<close> with its own sum, difference,
  product and quotient, of which nothing is assumed, and \<open>flt\<close> is the conversion
  \<open>static_cast<float>\<close> of an \<open>int\<close>.
\<close>

definition INT_MIN :: int where
  "INT_MIN = - (2 ^ 31)"

definition float_w :: "(int \<Rightarrow> 'f) \<Rightarrow> sprite \<Rightarrow> 'f::{one,times,inverse}" where
  "float_w flt s = 1 * flt (tex_w (tex s)) / flt (cols s)"

definition float_h :: "(int \<Rightarrow> 'f) \<Rightarrow> sprite \<Rightarrow> 'f::{one,times,inverse}" where
  "float_h flt s = 1 * flt (tex_h (tex s)) / flt (rows s)"

definition Sprite_render ::
  "(int \<Rightarrow> 'f) \<Rightarrow> sprite \<Rightarrow> 'f \<Rightarrow> nat option \<Rightarrow> nat option \<Rightarrow>
     error + ('f::{zero,one,plus,minus,times,inverse}) call list"
where
  "Sprite_render flt s dt hovered selected =
     (if cols s = 0 then Inl DivisionByZero
      else if frame s = INT_MIN \<and> cols s = - 1 then Inl SignedOverflow
      else
        let fCols = flt (cols s);
            fRows = flt (rows s);
            i = flt (frame s smod cols s) / fCols;
            j = (fRows - 1 - flt (frame s sdiv cols s)) / fRows;
            z = flt (zOrder s) / flt 1024;
            w = float_w flt s;
            h = float_h flt s
        in Inr
          [glEnable, glBindTexture (tex_handle (tex s)), glBegin,
           glColor4f 1 1 1 1,
           glTexCoord2f (0 + i) (0 + j), glVertex3f 0 0 z,
           glTexCoord2f (1 / fCols + i) (0 + j), glVertex3f w 0 z,
           glTexCoord2f (1 / fCols + i) (1 / fRows + j), glVertex3f w h z,
           glTexCoord2f (0 + i) (1 / fRows + j), glVertex3f 0 h z,
           glEnd, glBindTexture 0, glDisable,
           Node_render dt hovered selected])"

text \<open>
  \<open>Sprite::renderUi\<close> (lines 41--57). \<open>ImGui::InputInt(label, &v)\<close> may leave any
  integer in \<open>v\<close>: \<open>ui label v\<close> is the value it leaves when it is shown \<open>v\<close>.
  \<open>Node::renderUi\<close>, the base class's part, is outside these sources and does not reach
  the three fields.
\<close>

definition Sprite_renderUi :: "(string \<Rightarrow> int \<Rightarrow> int) \<Rightarrow> sprite \<Rightarrow> sprite" where
  "Sprite_renderUi ui s =
     (let s1 = s\<lparr>cols := ui ''Cols'' (cols s)\<rparr>;
          s2 = (if cols s1 < 1 then s1\<lparr>cols := 1\<rparr> else s1);
          s3 = s2\<lparr>rows := ui ''Rows'' (rows s2)\<rparr>;
          s4 = (if rows s3 < 1 then s3\<lparr>rows := 1\<rparr> else s3);
          s5 = s4\<lparr>numFrames := ui ''NumFrames'' (numFrames s4)\<rparr>;
          s6 = (if numFrames s5 < 1 then s5\<lparr>numFrames := 1\<rparr> else s5)
      in s6)"

text \<open>
  \<open>Sprite::isTransparent\<close> (lines 81--94). Line 85 divides by \<open>numFrames\<close> and by
  \<open>cols\<close> (twice: \<open>%\<close> and \<open>w()\<close>), line 86 by \<open>numFrames\<close>, \<open>cols\<close> and \<open>rows\<close> (\<open>h()\<close>).
\<close>

definition Sprite_isTransparent :: "sprite \<Rightarrow> real \<times> real \<Rightarrow> error + bool" where
  "Sprite_isTransparent s v =
     (if tex_ch (tex s) = 3 then Inr False
      else if numFrames s = 0 \<or> cols s = 0 then Inl DivisionByZero
      else
        case Sprite_w s of Inl e \<Rightarrow> Inl e | Inr w \<Rightarrow>
        case Sprite_h s of Inl e \<Rightarrow> Inl e | Inr h \<Rightarrow>
        let x = to_int (fst v + real_of_int ((frame s smod numFrames s) smod cols s) * w);
            y = to_int (snd v +
                  real_of_int (rows s - (frame s smod numFrames s) sdiv cols s - 1) * h)
        in if x < 0 \<or> x \<ge> tex_w (tex s) \<or> y < 0 \<or> y \<ge> tex_h (tex s) then Inr True
           else
             case imageData (tex s) of
               Some d \<Rightarrow>
                 let k = (x + y * tex_w (tex s)) * tex_ch (tex s) + 3
                 in if 0 \<le> k \<and> nat k < length d then Inr (d ! nat k < 127)
                    else Inl OutOfBounds
             | None \<Rightarrow> Inr False)"

definition sprite_inv :: "sprite \<Rightarrow> bool" where
  "sprite_inv s = (cols s \<ge> 1 \<and> rows s \<ge> 1 \<and> numFrames s \<ge> 1)"

section \<open>The serialization codec and the node tree\<close>

text \<open>
  Modelled from the spec: the codec primitives (\<open>ser\<close> and \<open>deser\<close> of scalars and
  strings, with \<open>OStrm\<close> and \<open>IStrm\<close>) are not in the sources. A stream is the sequence of
  the primitive values written, and each is read back as it was written; its kind stands
  for its width and type. The width of the child count is not given by the spec, so the
  count is a natural number.
\<close>

datatype prim =
    U32 "32 word"
  | I32 "32 word"
  | F32 "32 word"
  | Flag bool
  | Str string
  | Count nat

datatype kind = KU32 | KI32 | KF32 | KFlag | KStr | KCount

fun kind_of :: "prim \<Rightarrow> kind" where
  "kind_of (U32 _) = KU32"
| "kind_of (I32 _) = KI32"
| "kind_of (F32 _) = KF32"
| "kind_of (Flag _) = KFlag"
| "kind_of (Str _) = KStr"
| "kind_of (Count _) = KCount"

text \<open>
  The node classes that \<open>App::App\<close> registers with the factory (\<^verbatim>\<open>app.cpp\<close> lines 33--48),
  in the order of registration. Their \<open>className\<close> constants are declared in headers that
  are not among the sources and are taken to be the class names.
\<close>

datatype node_class = Bouncer | Bouncer2 | Root | Mouth | AnimSprite | Eye | Chat

fun className :: "node_class \<Rightarrow> string" where
  "className Bouncer = ''Bouncer''"
| "className Bouncer2 = ''Bouncer2''"
| "className Root = ''Root''"
| "className Mouth = ''Mouth''"
| "className AnimSprite = ''AnimSprite''"
| "className Eye = ''Eye''"
| "className Chat = ''Chat''"

definition registered :: "(string \<times> node_class) list" where
  "registered = map (\<lambda>c. (className c, c)) [Bouncer, Bouncer2, Root, Mouth, AnimSprite, Eye, Chat]"

text \<open>
  A node: its address (what a \<open>Node *\<close> holds), its class, its instance name, the
  serialized properties of its own class (what \<open>::ser(strm, *this)\<close> writes), those of
  the base class \<open>Node\<close> (what \<open>Node::save\<close> writes) and its children in order. The
  property lists of the classes are declared in the missing headers: a \<open>layout\<close> gives,
  for each class, the properties of a freshly constructed object, and the names that
  the constructors of \<open>Root\<close> and \<open>Bouncer\<close> give to their nodes.
\<close>

datatype node =
  Node (addr: nat) (cls: node_class) (name: string)
       (props: "prim list") (base: "prim list") (nodes: "node list")

record layout =
  own_default :: "node_class \<Rightarrow> prim list"
  base_default :: "prim list"
  Root_name :: string
  Bouncer_name :: string

text \<open>A freshly constructed node of class \<open>c\<close> named \<open>nm\<close> at address \<open>a\<close>.\<close>

definition fresh :: "layout \<Rightarrow> node_class \<Rightarrow> string \<Rightarrow> nat \<Rightarrow> node" where
  "fresh L c nm a = Node a c nm (own_default L c) (base_default L) []"

text \<open>
  \<open>Sprite::Sprite\<close> (\<^verbatim>\<open>sprite.cpp\<close> lines 8--15). The node is named \<open>path.filename()\<close>, the
  last component of the path. If no file of that name exists in the working directory, the
  file at \<open>path\<close> is copied there; \<open>std::filesystem::copy\<close> throws a \<open>filesystem_error\<close>, which
  is a \<open>std::runtime_error\<close>, when there is no file at \<open>path\<close> or the target has no name.
  \<open>files\<close> is the set of the paths at which a file exists, as the process sees them; the
  constructor returns the name and the files that exist afterwards. \<open>lib.queryTex\<close>,
  which loads the texture, is outside the sources and is taken to return.
\<close>

definition filename :: "string \<Rightarrow> string" where
  "filename path = rev (takeWhile (\<lambda>c. c \<noteq> CHR ''/'') (rev path))"

definition Sprite_Sprite :: "string set \<Rightarrow> string \<Rightarrow> error + (string \<times> string set)" where
  "Sprite_Sprite files path =
     (let nm = filename path
      in if nm \<in> files then Inr (nm, files)
         else if path \<in> files \<and> nm \<noteq> [] then Inr (nm, insert nm files)
         else Inl (RuntimeError (''filesystem error: cannot copy '' @ path)))"

text \<open>
  The closures that \<open>App::App\<close> registers (lines 33--48). \<open>Root(lib, undo)\<close> and
  \<open>Bouncer(lib, undo, audioInput)\<close> are called without the name that the factory hands to
  the closure, so every node of these classes carries the name its constructor fixes;
  the two constructors are not in the sources and the names they fix are the parameters
  \<open>Root_name\<close> and \<open>Bouncer_name\<close> of the layout. \<open>Bouncer2\<close> and \<open>Chat\<close> keep the name
  (\<open>Chat::Chat\<close>, \<^verbatim>\<open>chat.cpp\<close> line 14, passes it to \<open>Node\<close>).

  Modelled from the spec: the constructors of \<open>Mouth\<close>, \<open>AnimSprite\<close> and \<open>Eye\<close> are not in
  the sources. These are the node variants drawn from a sprite sheet; each hands the name
  it receives to \<open>Sprite::Sprite\<close> as the path of the image.
\<close>

definition is_sprite :: "node_class \<Rightarrow> bool" where
  "is_sprite c = (c = Mouth \<or> c = AnimSprite \<or> c = Eye)"

definition make_node ::
  "layout \<Rightarrow> string set \<Rightarrow> node_class \<Rightarrow> string \<Rightarrow> nat \<Rightarrow> error + (node \<times> string set)"
where
  "make_node L files c nm a =
     (if is_sprite c
      then (case Sprite_Sprite files nm of
              Inl e \<Rightarrow> Inl e
            | Inr (nm', files') \<Rightarrow> Inr (fresh L c nm' a, files'))
      else Inr (fresh L c (case c of Root \<Rightarrow> Root_name L | Bouncer \<Rightarrow> Bouncer_name L | _ \<Rightarrow> nm) a,
                files))"

text \<open>
  Modelled from the spec: \<open>SaveFactory::ctor(typeName, instanceName)\<close> is not in the
  sources. It looks the type name up and invokes the registered constructor; an unknown
  type name is a reportable construction error (a \<open>std::runtime_error\<close>), and an exception
  of the constructor passes through.
\<close>

definition SaveFactory_ctor ::
  "layout \<Rightarrow> string set \<Rightarrow> string \<Rightarrow> string \<Rightarrow> nat \<Rightarrow> error + (node \<times> string set)"
where
  "SaveFactory_ctor L files clsName nm a =
     (case map_of registered clsName of
        None \<Rightarrow> Inl (RuntimeError (''unknown class: '' @ clsName))
      | Some c \<Rightarrow> make_node L files c nm a)"

text \<open>
  Modelled from the spec: \<open>Node::save\<close> and \<open>Node::load\<close> are not in the sources; they
  write and read the properties of the base class. \<open>ser_this\<close> and \<open>deser_this\<close> are
  \<open>::ser(strm, *this)\<close> and \<open>::deser(strm, *this)\<close>: the properties of the object's own
  class, each read back into a property of the same kind.
\<close>

fun deser_like :: "prim list \<Rightarrow> prim list \<Rightarrow> error + (prim list \<times> prim list)" where
  "deser_like [] strm = Inr ([], strm)"
| "deser_like (p # ps) [] = Inl Malformed"
| "deser_like (p # ps) (x # strm) =
     (if kind_of x = kind_of p
      then (case deser_like ps strm of
              Inl e \<Rightarrow> Inl e
            | Inr (vs, rest) \<Rightarrow> Inr (x # vs, rest))
      else Inl Malformed)"

definition ser_this :: "node \<Rightarrow> prim list" where
  "ser_this n = props n"

definition deser_this :: "node \<Rightarrow> prim list \<Rightarrow> error + (node \<times> prim list)" where
  "deser_this n strm =
     (case deser_like (props n) strm of
        Inl e \<Rightarrow> Inl e
      | Inr (vs, rest) \<Rightarrow> Inr (Node (addr n) (cls n) (name n) vs (base n) (nodes n), rest))"

definition Node_save :: "node \<Rightarrow> prim list" where
  "Node_save n = base n"

definition Node_load :: "node \<Rightarrow> prim list \<Rightarrow> error + (node \<times> prim list)" where
  "Node_load n strm =
     (case deser_like (base n) strm of
        Inl e \<Rightarrow> Inl e
      | Inr (vs, rest) \<Rightarrow> Inr (Node (addr n) (cls n) (name n) (props n) vs (nodes n), rest))"

text \<open>\<open>Sprite::save\<close> and \<open>Sprite::load\<close> (\<^verbatim>\<open>sprite.cpp\<close> lines 59--69).\<close>

definition Sprite_save :: "node \<Rightarrow> prim list" where
  "Sprite_save n = ser_this n @ Node_save n"

definition Sprite_load :: "node \<Rightarrow> prim list \<Rightarrow> error + (node \<times> prim list)" where
  "Sprite_load n strm =
     (case deser_this n strm of
        Inl e \<Rightarrow> Inl e
      | Inr (n', rest) \<Rightarrow> Node_load n' rest)"

text \<open>
  \<open>Chat::save\<close> and \<open>Chat::load\<close> (\<^verbatim>\<open>chat.cpp\<close> lines 127--149). After reading, \<open>load\<close>
  queries the font and the text-to-speech service again; these collaborators are not
  part of the persisted node.
\<close>

definition Chat_save :: "node \<Rightarrow> prim list" where
  "Chat_save n = [Str (className Chat), Str (name n)] @ ser_this n @ Node_save n"

definition Chat_load :: "node \<Rightarrow> prim list \<Rightarrow> error + (node \<times> prim list)" where
  "Chat_load n strm =
     (case deser_this n strm of
        Inl e \<Rightarrow> Inl e
      | Inr (n', rest) \<Rightarrow> Node_load n' rest)"

text \<open>
  Modelled from the spec: the virtual \<open>save\<close> and \<open>load\<close> of the classes other than
  \<open>Chat\<close> are not in the sources. As \<open>Chat::save\<close> does, each writes its type name and its
  instance name and then its payload; the classes drawn from a sprite sheet (\<open>Mouth\<close>,
  \<open>AnimSprite\<close>, \<open>Eye\<close>) write the payload through \<open>Sprite::save\<close>.
\<close>

definition save :: "node \<Rightarrow> prim list" where
  "save n =
     (if cls n = Chat then Chat_save n
      else if is_sprite (cls n) then [Str (className (cls n)), Str (name n)] @ Sprite_save n
      else [Str (className (cls n)), Str (name n)] @ ser_this n @ Node_save n)"

definition load :: "node \<Rightarrow> prim list \<Rightarrow> error + (node \<times> prim list)" where
  "load n strm =
     (if cls n = Chat then Chat_load n strm
      else if is_sprite (cls n) then Sprite_load n strm
      else (case deser_this n strm of
              Inl e \<Rightarrow> Inl e
            | Inr (n', rest) \<Rightarrow> Node_load n' rest))"

text \<open>
  Modelled from the spec: \<open>Node::saveAll\<close> and \<open>Node::loadAll\<close> are not in the sources.
  \<open>saveAll\<close> writes the node's record, the child count and each child's full record,
  in order. \<open>loadAll\<close> hydrates a constructed node: it reads the payload and the count,
  and for each child reads type name and instance name, constructs the child through
  the factory, hydrates it and appends it. The recursion follows the stream, so it
  carries fuel (one unit per level); the last two arguments are the next free address
  and the files that exist, and both are returned as the constructors leave them.
\<close>

fun saveAll :: "node \<Rightarrow> prim list" where
  "saveAll (Node a c nm ps bs kids) =
     save (Node a c nm ps bs kids) @ Count (length kids) # concat (map saveAll kids)"

function
  loadAll ::
    "layout \<Rightarrow> nat \<Rightarrow> node \<Rightarrow> prim list \<Rightarrow> nat \<Rightarrow> string set \<Rightarrow>
       error + (node \<times> prim list \<times> nat \<times> string set)"
and
  loadNodes ::
    "layout \<Rightarrow> nat \<Rightarrow> nat \<Rightarrow> prim list \<Rightarrow> nat \<Rightarrow> string set \<Rightarrow>
       error + (node list \<times> prim list \<times> nat \<times> string set)"
where
  "loadAll L 0 n strm a fs = Inl OutOfFuel"
| "loadAll L (Suc fuel) n strm a fs =
     (case load n strm of
        Inl e \<Rightarrow> Inl e
      | Inr (n', strm1) \<Rightarrow>
          (case strm1 of
             Count sz # strm2 \<Rightarrow>
               (case loadNodes L fuel sz strm2 a fs of
                  Inl e \<Rightarrow> Inl e
                | Inr (kids, strm3, a', fs') \<Rightarrow>
                    Inr (Node (addr n') (cls n') (name n') (props n') (base n') (nodes n' @ kids),
                         strm3, a', fs'))
           | _ \<Rightarrow> Inl Malformed))"
| "loadNodes L fuel 0 strm a fs = Inr ([], strm, a, fs)"
| "loadNodes L fuel (Suc k) strm a fs =
     (case strm of
        Str clsName # Str nm # strm1 \<Rightarrow>
          (case SaveFactory_ctor L fs clsName nm a of
             Inl e \<Rightarrow> Inl e
           | Inr (n, fs1) \<Rightarrow>
               (case loadAll L fuel n strm1 (a + 1) fs1 of
                  Inl e \<Rightarrow> Inl e
                | Inr (n', strm2, a', fs2) \<Rightarrow>
                    (case loadNodes L fuel k strm2 a' fs2 of
                       Inl e \<Rightarrow> Inl e
                     | Inr (ns, strm3, a'', fs3) \<Rightarrow> Inr (n' # ns, strm3, a'', fs3))))
      | _ \<Rightarrow> Inl Malformed)"
  by pat_completeness auto
termination
  by (relation "inv_image (less_than <*lex*> less_than)
        (\<lambda>x. case x of
           Inl (L, fuel, n, strm, a, fs) \<Rightarrow> (fuel, 0)
         | Inr (L, fuel, k, strm, a, fs) \<Rightarrow> (fuel, Suc k))") auto






section \<open>Tree mutation\<close>

text \<open>
  Modelled from the spec: \<open>Node::addChild\<close> and \<open>Node::del\<close> are not in the sources.
  \<open>addChild\<close> appends a child to the node at address \<open>p\<close>; \<open>del\<close> removes the node at
  address \<open>x\<close> from its parent (the root has no parent and stays).
\<close>

fun Node_addChild :: "nat \<Rightarrow> node \<Rightarrow> node \<Rightarrow> node" where
  "Node_addChild p n (Node a c nm ps bs kids) =
     (if a = p then Node a c nm ps bs (kids @ [n])
      else Node a c nm ps bs (map (Node_addChild p n) kids))"

fun Node_del :: "nat \<Rightarrow> node \<Rightarrow> node" where
  "Node_del x (Node a c nm ps bs kids) =
     Node a c nm ps bs (map (Node_del x) (filter (\<lambda>k. addr k \<noteq> x) kids))"

fun addrs :: "node \<Rightarrow> nat list" where
  "addrs (Node a c nm ps bs kids) = a # concat (map addrs kids)"

section \<open>The undo manager\<close>

text \<open>
  Modelled from the spec: the class \<open>Undo\<close> is not in the sources. An action is a pair
  of closures over the state they mutate; the manager keeps the done and the undone
  sequence, newest first. \<open>record\<close> executes the do-closure, pushes the action and
  clears the undone sequence; \<open>undo\<close> pops the newest done action, invokes its
  undo-closure and pushes it onto the undone sequence, and is a no-op on an empty
  sequence; \<open>redo\<close> is symmetric.
\<close>

record 's UndoAction =
  doFn :: "'s \<Rightarrow> error + 's"
  undoFn :: "'s \<Rightarrow> error + 's"

record 's Undo =
  done_stack :: "'s UndoAction list"
  undone_stack :: "'s UndoAction list"

definition Undo_record :: "'s UndoAction \<Rightarrow> 's \<times> 's Undo \<Rightarrow> error + ('s \<times> 's Undo)" where
  "Undo_record act su =
     (case doFn act (fst su) of
        Inl e \<Rightarrow> Inl e
      | Inr s' \<Rightarrow> Inr (s', \<lparr>done_stack = act # done_stack (snd su), undone_stack = []\<rparr>))"

definition Undo_undo :: "'s \<times> 's Undo \<Rightarrow> error + ('s \<times> 's Undo)" where
  "Undo_undo su =
     (case done_stack (snd su) of
        [] \<Rightarrow> Inr su
      | act # rest \<Rightarrow>
          (case undoFn act (fst su) of
             Inl e \<Rightarrow> Inl e
           | Inr s' \<Rightarrow>
               Inr (s', \<lparr>done_stack = rest, undone_stack = act # undone_stack (snd su)\<rparr>)))"


definition hasUndo :: "'s Undo \<Rightarrow> bool" where
  "hasUndo u = (done_stack u \<noteq> [])"

definition hasRedo :: "'s Undo \<Rightarrow> bool" where
  "hasRedo u = (undone_stack u \<noteq> [])"

text \<open>Sequences of calls: one \<open>record\<close> per action, and \<open>n\<close> calls of \<open>undo\<close>.\<close>

fun record_all :: "'s UndoAction list \<Rightarrow> 's \<times> 's Undo \<Rightarrow> error + ('s \<times> 's Undo)" where
  "record_all [] su = Inr su"
| "record_all (act # acts) su =
     (case Undo_record act su of
        Inl e \<Rightarrow> Inl e
      | Inr su' \<Rightarrow> record_all acts su')"

fun undo_times :: "nat \<Rightarrow> 's \<times> 's Undo \<Rightarrow> error + ('s \<times> 's Undo)" where
  "undo_times 0 su = Inr su"
| "undo_times (Suc n) su =
     (case Undo_undo su of
        Inl e \<Rightarrow> Inl e
      | Inr su' \<Rightarrow> undo_times n su')"

text \<open>
  The contract of the spec's data model for the actions recorded from state \<open>s\<close> on:
  each do-closure succeeds, and its undo-closure, run in the state the do-closure left,
  gives back the state in which the action was recorded.
\<close>

fun inverse_at_record_time :: "'s \<Rightarrow> 's UndoAction list \<Rightarrow> bool" where
  "inverse_at_record_time s [] = True"
| "inverse_at_record_time s (act # acts) =
     (case doFn act s of
        Inl e \<Rightarrow> False
      | Inr s' \<Rightarrow> undoFn act s' = Inr s \<and> inverse_at_record_time s' acts)"

section \<open>app.cpp: the orchestrator\<close>

text \<open>
  The state that the recorded closures mutate (\<open>root\<close> and \<open>selected\<close>, reached through
  the captured \<open>this\<close>), and around it the rest of \<open>App\<close>: the undo manager, the dialog,
  the postponed actions and the address of the next allocation. The project file
  \<^verbatim>\<open>prj.tpp\<close> is \<open>None\<close> when it cannot be opened; \<open>files\<close> are the other files that exist. The caught exception objects that are
  alive are kept by address, so that a reference to one can outlive it. \<open>LOG\<close> writes to
  the log, which is not part of the state.
\<close>

record scene =
  root :: "node option"
  selected :: "nat option"

datatype dialog = MessageDialog string string | FileOpen | ChannelDialog | PrjDialog | PreferencesDialog

datatype postponed = ShowError nat

record app =
  scn :: scene
  undo_mgr :: "scene Undo"
  dialog :: "dialog option"
  postponedActions :: "postponed list"
  prj_file :: "prim list option"
  next_addr :: nat
  exceptions :: "nat \<rightharpoonup> string"
  next_exception :: nat
  files :: "string set"

definition ver :: "32 word" where
  "ver = 2"

text \<open>\<open>std::make_unique<Root>(lib, undo)\<close>: a fresh root without children.\<close>

definition new_Root :: "layout \<Rightarrow> nat \<Rightarrow> node" where
  "new_Root L a = fresh L Root (Root_name L) a"

text \<open>
  \<open>App::loadPrj\<close> (lines 359--394). \<open>::deser(strm, v)\<close> reads the leading \<open>uint32\<close>; what
  it does with a stream that does not start with one is undefined in the source and is
  \<open>Malformed\<close> here. \<open>loadAll\<close> receives the length of the stream as its fuel. The
  call that reloads the ImGui settings (line 361) touches nothing of this state. An
  exception of a constructor is not caught here and leaves \<open>loadPrj\<close>.
\<close>

definition App_loadPrj :: "layout \<Rightarrow> app \<Rightarrow> error + app" where
  "App_loadPrj L app =
     (case prj_file app of
        None \<Rightarrow>
          Inr (app\<lparr>scn := (scn app)\<lparr>root := Some (new_Root L (next_addr app))\<rparr>,
                   next_addr := next_addr app + 1\<rparr>)
      | Some buf \<Rightarrow>
          (case buf of
             U32 v # strm \<Rightarrow>
               if v \<noteq> ver
               then Inr (app\<lparr>scn := (scn app)\<lparr>root := Some (new_Root L (next_addr app))\<rparr>,
                             next_addr := next_addr app + 1\<rparr>)
               else
                 (case strm of
                    Str clsName # Str nm # strm1 \<Rightarrow>
                      (case SaveFactory_ctor L (files app) clsName nm (next_addr app) of
                         Inl e \<Rightarrow> Inl e
                       | Inr (r, fs) \<Rightarrow>
                           (case loadAll L (length strm1) r strm1 (next_addr app + 1) fs of
                              Inl e \<Rightarrow> Inl e
                            | Inr (r', rest, a', fs') \<Rightarrow>
                                Inr (app\<lparr>scn := (scn app)\<lparr>root := Some r'\<rparr>,
                                         next_addr := a', files := fs'\<rparr>)))
                  | _ \<Rightarrow> Inl Malformed)
           | _ \<Rightarrow> Inl Malformed))"

text \<open>\<open>App::savePrj\<close> (lines 396--405).\<close>

definition App_savePrj :: "app \<Rightarrow> app" where
  "App_savePrj app =
     (case root (scn app) of
        None \<Rightarrow> app
      | Some r \<Rightarrow> app\<lparr>prj_file := Some (U32 ver # saveAll r)\<rparr>)"

text \<open>
  The two closures that \<open>App::addNode\<close> records (lines 414--421). The do-closure holds
  the new node and the parent's address; the undo-closure holds \<open>oldSelected\<close> (and the
  node, which it does not use) and deletes \<open>*selected\<close>, the selection current when it
  runs.
\<close>

definition addNode_do :: "node \<Rightarrow> nat option \<Rightarrow> scene \<Rightarrow> error + scene" where
  "addNode_do node parent s =
     (case parent of
        None \<Rightarrow> Inl NullDeref
      | Some p \<Rightarrow>
          Inr (s\<lparr>selected := Some (addr node),
                 root := map_option (Node_addChild p node) (root s)\<rparr>))"

definition addNode_undo :: "nat option \<Rightarrow> scene \<Rightarrow> error + scene" where
  "addNode_undo oldSelected s =
     (case selected s of
        None \<Rightarrow> Inl NullDeref
      | Some x \<Rightarrow>
          Inr (s\<lparr>root := map_option (Node_del x) (root s), selected := oldSelected\<rparr>))"

text \<open>
  \<open>App::addNode\<close> (lines 407--429). In the handler the closure pushed onto
  \<open>postponedActions\<close> captures the caught exception \<open>e\<close> by reference (\<open>[&]\<close>, line 426);
  the exception object is destroyed when the handler is left.
\<close>

definition App_addNode :: "layout \<Rightarrow> string \<Rightarrow> string \<Rightarrow> app \<Rightarrow> error + app" where
  "App_addNode L clsName nm app =
     (case SaveFactory_ctor L (files app) clsName nm (next_addr app) of
        Inr (node, fs) \<Rightarrow>
          let oldSelected = selected (scn app);
              parent = (case oldSelected of
                          Some p \<Rightarrow> Some p
                        | None \<Rightarrow> map_option addr (root (scn app)));
              act = \<lparr>doFn = addNode_do node parent, undoFn = addNode_undo oldSelected\<rparr>
          in (case Undo_record act (scn app, undo_mgr app) of
                Inl e \<Rightarrow> Inl e
              | Inr (s, u) \<Rightarrow>
                  Inr (app\<lparr>scn := s, undo_mgr := u, next_addr := next_addr app + 1,
                           files := fs\<rparr>))
      | Inl (RuntimeError what) \<Rightarrow>
          let e = next_exception app;
              caught = app\<lparr>exceptions := (exceptions app)(e \<mapsto> what), next_exception := e + 1\<rparr>;
              queued = caught\<lparr>postponedActions := postponedActions caught @ [ShowError e]\<rparr>
          in Inr (queued\<lparr>exceptions := (exceptions queued)(e := None)\<rparr>)
      | Inl err \<Rightarrow> Inl err)"

text \<open>
  The end of \<open>App::renderUi\<close> (lines 192--194): every postponed action runs, then the
  list is cleared. The action of \<open>addNode\<close> calls \<open>e.what()\<close> on the exception it refers to.
\<close>

fun run_action :: "postponed \<Rightarrow> app \<Rightarrow> error + app" where
  "run_action (ShowError e) app =
     (case exceptions app e of
        None \<Rightarrow> Inl UseAfterFree
      | Some what \<Rightarrow> Inr (app\<lparr>dialog := Some (MessageDialog ''Error'' what)\<rparr>))"

fun run_actions :: "postponed list \<Rightarrow> app \<Rightarrow> error + app" where
  "run_actions [] app = Inr app"
| "run_actions (act # acts) app =
     (case run_action act app of
        Inl e \<Rightarrow> Inl e
      | Inr app' \<Rightarrow> run_actions acts app')"

definition App_runPostponed :: "app \<Rightarrow> error + app" where
  "App_runPostponed app =
     (case run_actions (postponedActions app) app of
        Inl e \<Rightarrow> Inl e
      | Inr app' \<Rightarrow> Inr (app'\<lparr>postponedActions := []\<rparr>))"

text \<open>
  Two steps of \<open>App::processIo\<close>: the Delete key (lines 250--251), where
  \<open>Node::del(&selected)\<close> removes the selected node and nulls \<open>selected\<close> without an undo
  record, and Ctrl+Z and Ctrl+Y (lines 285--288).
\<close>

definition App_deleteKey :: "app \<Rightarrow> app" where
  "App_deleteKey app =
     (case selected (scn app) of
        None \<Rightarrow> app
      | Some x \<Rightarrow>
          app\<lparr>scn := (scn app)\<lparr>root := map_option (Node_del x) (root (scn app)),
                                 selected := None\<rparr>\<rparr>)"

definition App_undoKey :: "app \<Rightarrow> error + app" where
  "App_undoKey app =
     (case Undo_undo (scn app, undo_mgr app) of
        Inl e \<Rightarrow> Inl e
      | Inr (s, u) \<Rightarrow> Inr (app\<lparr>scn := s, undo_mgr := u\<rparr>))"






section \<open>Sample data for the instances\<close>

definition demo_chat :: "int chat" where
  "demo_chat =
     \<lparr>showChat = True,
      msgs = [\<lparr>displayName = ''bob'', msg = ''hello there world'', color = (1, 0, 0)\<rparr>,
              \<lparr>displayName = ''amy'', msg = ''hi'', color = (0, 1, 0)\<rparr>],
      size_x = 40, size_y = 100,
      getSize = (\<lambda>s. (int (length s) * 8, 10)),
      voices = [''en-US-A'', ''en-US-B'', ''en-GB-C''],
      voicesMap = [''amy'' \<mapsto> ''en-GB-C'']\<rparr>"

definition demo_hash :: "string \<Rightarrow> 64 word" where
  "demo_hash s = of_nat (length s)"

definition demo_sprite :: sprite where
  "demo_sprite =
     \<lparr>cols = 4, rows = 2, numFrames = 8, frame = 5, zOrder = 3,
      tex = \<lparr>tex_w = 64, tex_h = 32, tex_ch = 4, imageData = None, tex_handle = 7\<rparr>\<rparr>"

definition demo_layout :: layout where
  "demo_layout =
     \<lparr>own_default = (\<lambda>c. if c = Chat then [I32 24, Flag False]
                          else if is_sprite c then [I32 1, I32 1, I32 1] else []),
      base_default = [F32 0, F32 0, I32 0],
      Root_name = ''root'', Bouncer_name = ''bouncer''\<rparr>"

definition demo_app :: app where
  "demo_app =
     \<lparr>scn = \<lparr>root = None, selected = None\<rparr>,
      undo_mgr = \<lparr>done_stack = [], undone_stack = []\<rparr>,
      dialog = None, postponedActions = [],
      prj_file = Some [U32 1, Str ''Root'', Str ''root'', F32 0, F32 0, I32 0, Count 0],
      next_addr = 0, exceptions = Map.empty, next_exception = 0,
      files = {''face.png''}\<rparr>"




definition setX :: "int \<Rightarrow> int \<Rightarrow> error + int" where
  "setX v x = Inr v"

definition demo_tree :: node where
  "demo_tree =
     Node 10 Root ''root'' [] [F32 0, F32 0, I32 0]
       [Node 11 Chat ''mika314'' [I32 30, Flag True] [F32 1, F32 2, I32 1] [],
        Node 12 AnimSprite ''face.png'' [I32 4, I32 2, I32 8] [F32 3, F32 4, I32 2]
          [Node 13 Bouncer2 ''bouncer'' [] [F32 5, F32 6, I32 3] []]]"

definition demo_project :: app where
  "demo_project = demo_app\<lparr>scn := \<lparr>root = Some demo_tree, selected = Some 12\<rparr>, next_addr := 20\<rparr>"

definition node_A :: node where
  "node_A = Node 1 Bouncer2 ''a'' [] [F32 0, F32 0, I32 0] []"

definition node_B :: node where
  "node_B = Node 2 Bouncer2 ''b'' [] [F32 0, F32 0, I32 0] []"

definition stage_root :: "node list \<Rightarrow> node" where
  "stage_root kids = Node 0 Root ''root'' [] [F32 0, F32 0, I32 0] kids"

definition demo_stage :: app where
  "demo_stage =
     demo_app\<lparr>scn := \<lparr>root = Some (stage_root [node_A]), selected = None\<rparr>, next_addr := 2\<rparr>"


chapter \<open>Properties\<close>

section \<open>dedup: the scans return and erase whole runs\<close>

text \<open>
  As long as the vector has fewer than \<open>2 ^ 32\<close> words no counter wraps: the repetition
  scan returns and erases the whole run it found, the scan over the positions finds the
  leftmost tripled block of its width, the scan over the widths the shortest. Each
  erase is a collapse step and shortens the vector, so the outer loop comes to an end.
\<close>

lemma eq_words_bounds:
  "eq_words ws i j w \<Longrightarrow> i + w \<le> length ws \<and> j + w \<le> length ws"
  by (auto simp: eq_words_def split: if_splits)

lemma eq_words_iff:
  "eq_words ws i j w \<longleftrightarrow>
     i + w \<le> length ws \<and> j + w \<le> length ws \<and> take w (drop i ws) = take w (drop j ws)"
proof (cases "i + w \<le> length ws \<and> j + w \<le> length ws")
  case True
  then have "(take w (drop i ws) = take w (drop j ws)) = (\<forall>k<w. ws ! (i + k) = ws ! (j + k))"
    by (auto simp: list_eq_iff_nth_eq)
  with True show ?thesis
    by (auto simp: eq_words_def list_all_iff)
next
  case False
  then show ?thesis by (auto simp: eq_words_def)
qed

lemma run_at_Suc: "run_at ws i w (Suc r) = (run_at ws i w r \<and> eq_words ws i (i + r * w) w)"
  by (auto simp: run_at_def less_Suc_eq)

lemma run_at_one: "i + w \<le> length ws \<Longrightarrow> run_at ws i w 1"
  by (simp add: run_at_def eq_words_iff)

lemma no_wrap:
  fixes i r w :: "32 word"
  assumes "length ws < 2 ^ 32" "unat i + unat r * unat w \<le> length ws"
  shows "unat (r * w) = unat r * unat w"
    and "unat (i + r * w) = unat i + unat r * unat w"
proof -
  from assms have "unat r * unat w < 2 ^ LENGTH(32)" by simp
  then show m: "unat (r * w) = unat r * unat w"
    by (rule iffD1 [OF unat_mult_lem])
  from assms m have "unat i + unat (r * w) < 2 ^ LENGTH(32)" by simp
  then have "unat (i + r * w) = unat i + unat (r * w)"
    by (rule iffD1 [OF unat_add_lem])
  with m show "unat (i + r * w) = unat i + unat r * unat w" by simp
qed

lemma unat_succ:
  fixes x :: "32 word"
  assumes "unat x + 1 < 2 ^ 32"
  shows "unat (x + 1) = unat x + 1"
proof -
  from assms have "unat x + unat (1 :: 32 word) < 2 ^ LENGTH(32)" by simp
  then have "unat (x + 1) = unat x + unat (1 :: 32 word)"
    by (rule iffD1 [OF unat_add_lem])
  then show ?thesis by simp
qed

lemma three_le: "(3 \<le> (r :: 32 word)) = (3 \<le> unat r)"
  by (simp add: word_le_nat_alt)

lemma scan_r_spec:
  assumes n: "length ws < 2 ^ 32" and w1: "1 \<le> unat w"
  shows "unat i + unat r * unat w \<le> length ws \<Longrightarrow>
         run_at ws (unat i) (unat w) (unat r) \<Longrightarrow>
         \<exists>r'\<ge>unat r.
            run_at ws (unat i) (unat w) r' \<and>
            \<not> eq_words ws (unat i) (unat i + r' * unat w) (unat w) \<and>
            unat i + r' * unat w \<le> length ws \<and>
            scan_r ws i w r =
              Some (if 3 \<le> r'
                    then Updated (take (unat i + unat w) ws @ drop (unat i + r' * unat w) ws)
                    else NoUpdate)"
proof (induction "length ws - (unat i + unat r * unat w)" arbitrary: r rule: less_induct)
  case less
  note nw = no_wrap [OF n less.prems(1)]
  show ?case
  proof (cases "eq_words ws (unat i) (unat i + unat r * unat w) (unat w)")
    case False
    have "scan_r ws i w r =
        Some (if 3 \<le> unat r
              then Updated (take (unat i + unat w) ws @ drop (unat i + unat r * unat w) ws)
              else NoUpdate)"
    proof (cases "3 \<le> unat r")
      case True
      with w1 have "unat w \<le> unat r * unat w" by simp
      with less.prems(1) have "erase ws (unat i + unat w) (unat i + unat r * unat w) =
          Some (take (unat i + unat w) ws @ drop (unat i + unat r * unat w) ws)"
        by (simp add: erase_def)
      with False True show ?thesis
        by (subst scan_r.simps) (simp add: nw three_le)
    next
      case r: False
      with False show ?thesis
        by (subst scan_r.simps) (simp add: nw three_le)
    qed
    with False less.prems show ?thesis by blast
  next
    case True
    then have b: "unat i + unat r * unat w + unat w \<le> length ws"
      using eq_words_bounds by blast
    from w1 have "unat r \<le> unat r * unat w" by simp
    with b w1 have "unat r + 1 \<le> length ws" by linarith
    with n have "unat r + 1 < 2 ^ 32" by linarith
    then have s: "unat (r + 1) = unat r + 1" by (rule unat_succ)
    from b have inv: "unat i + unat (r + 1) * unat w \<le> length ws"
      unfolding s by (simp add: algebra_simps)
    from w1 b have m: "length ws - (unat i + unat (r + 1) * unat w)
        < length ws - (unat i + unat r * unat w)"
      unfolding s by (simp add: algebra_simps)
    from True less.prems(2) have ra: "run_at ws (unat i) (unat w) (unat (r + 1))"
      unfolding s by (simp add: run_at_Suc)
    from less.hyps [OF m inv ra] obtain r' where
      r': "unat (r + 1) \<le> r'" "run_at ws (unat i) (unat w) r'"
        "\<not> eq_words ws (unat i) (unat i + r' * unat w) (unat w)"
        "unat i + r' * unat w \<le> length ws"
        "scan_r ws i w (r + 1) =
           Some (if 3 \<le> r'
                 then Updated (take (unat i + unat w) ws @ drop (unat i + r' * unat w) ws)
                 else NoUpdate)"
      by blast
    from True have "scan_r ws i w r = scan_r ws i w (r + 1)"
      by (subst scan_r.simps) (simp add: nw)
    with r' s show ?thesis
      by (intro exI [of _ r']) simp
  qed
qed

lemma scan_r_first:
  assumes n: "length ws < 2 ^ 32" and w1: "1 \<le> unat w" and b: "unat i + unat w \<le> length ws"
  shows "\<exists>res. scan_r ws i w 1 = Some res \<and>
           (case res of
              Updated ws' \<Rightarrow> found ws (unat w) (unat i) ws'
            | NoUpdate \<Rightarrow> \<not> tripled ws (unat i) (unat w)
            | InvalidErase \<Rightarrow> False)"
proof -
  have inv: "unat i + unat (1 :: 32 word) * unat w \<le> length ws" using b by simp
  have ra: "run_at ws (unat i) (unat w) (unat (1 :: 32 word))"
    using run_at_one [OF b] by simp
  from scan_r_spec [OF n w1 inv ra] obtain r' where
    r: "1 \<le> r'" "run_at ws (unat i) (unat w) r'"
      "\<not> eq_words ws (unat i) (unat i + r' * unat w) (unat w)"
      "scan_r ws i w 1 =
         Some (if 3 \<le> r'
               then Updated (take (unat i + unat w) ws @ drop (unat i + r' * unat w) ws)
               else NoUpdate)"
    by auto
  show ?thesis
  proof (cases "3 \<le> r'")
    case True
    with r show ?thesis by (auto simp: found_def)
  next
    case False
    with r(1) have "r' = 1 \<or> r' = 2" by arith
    with r(3) have "\<not> tripled ws (unat i) (unat w)" by (auto simp: tripled_def)
    with False r(4) show ?thesis by simp
  qed
qed

lemma scan_i_spec:
  assumes n: "length ws < 2 ^ 32" and w1: "1 \<le> unat w" and wn: "unat w \<le> length ws"
  shows "\<exists>res. scan_i ws w i0 = Some res \<and>
           (case res of
              Updated ws' \<Rightarrow>
                \<exists>i. unat i0 \<le> i \<and> i < length ws - unat w \<and> found ws (unat w) i ws' \<and>
                    (\<forall>i'. unat i0 \<le> i' \<and> i' < i \<longrightarrow> \<not> tripled ws i' (unat w))
            | NoUpdate \<Rightarrow>
                \<forall>i. unat i0 \<le> i \<and> i < length ws - unat w \<longrightarrow> \<not> tripled ws i (unat w)
            | InvalidErase \<Rightarrow> False)"
proof (induction "length ws - unat w - unat i0" arbitrary: i0 rule: less_induct)
  case less
  from wn have sm: "size_minus (length ws) (unat w) = length ws - unat w"
    by (simp add: size_minus_def)
  show ?case
  proof (cases "unat i0 < length ws - unat w")
    case False
    then have "scan_i ws w i0 = Some NoUpdate"
      by (subst scan_i.simps) (simp add: sm)
    with False show ?thesis by auto
  next
    case True
    then have b: "unat i0 + unat w \<le> length ws" by arith
    from scan_r_first [OF n w1 b] obtain res0 where
      r: "scan_r ws i0 w 1 = Some res0" and
      first: "case res0 of
                Updated ws' \<Rightarrow> found ws (unat w) (unat i0) ws'
              | NoUpdate \<Rightarrow> \<not> tripled ws (unat i0) (unat w)
              | InvalidErase \<Rightarrow> False"
      by blast
    show ?thesis
    proof (cases res0)
      case (Updated ws0)
      with True r have "scan_i ws w i0 = Some (Updated ws0)"
        by (subst scan_i.simps) (simp add: sm)
      moreover from first Updated True have
        "\<exists>i. unat i0 \<le> i \<and> i < length ws - unat w \<and> found ws (unat w) i ws0 \<and>
            (\<forall>i'. unat i0 \<le> i' \<and> i' < i \<longrightarrow> \<not> tripled ws i' (unat w))"
        by (intro exI [of _ "unat i0"]) auto
      ultimately show ?thesis by simp
    next
      case InvalidErase
      with first show ?thesis by simp
    next
      case NoUpdate
      from True n have "unat i0 + 1 < 2 ^ 32" by linarith
      then have s: "unat (i0 + 1) = unat i0 + 1" by (rule unat_succ)
      from True have m: "length ws - unat w - unat (i0 + 1) < length ws - unat w - unat i0"
        unfolding s by arith
      from less [OF m] obtain res where
        nx: "scan_i ws w (i0 + 1) = Some res" and
        ih: "case res of
               Updated ws' \<Rightarrow>
                 \<exists>i. unat (i0 + 1) \<le> i \<and> i < length ws - unat w \<and> found ws (unat w) i ws' \<and>
                     (\<forall>i'. unat (i0 + 1) \<le> i' \<and> i' < i \<longrightarrow> \<not> tripled ws i' (unat w))
             | NoUpdate \<Rightarrow>
                 \<forall>i. unat (i0 + 1) \<le> i \<and> i < length ws - unat w \<longrightarrow> \<not> tripled ws i (unat w)
             | InvalidErase \<Rightarrow> False"
        by blast
      from True r NoUpdate nx have eq: "scan_i ws w i0 = Some res"
        by (subst scan_i.simps) (simp add: sm)
      from first NoUpdate have here: "\<not> tripled ws (unat i0) (unat w)" by simp
      show ?thesis
      proof (cases res)
        case (Updated ws')
        with ih obtain i where i: "unat i0 + 1 \<le> i" "i < length ws - unat w"
            "found ws (unat w) i ws'"
            "\<forall>i'. unat i0 + 1 \<le> i' \<and> i' < i \<longrightarrow> \<not> tripled ws i' (unat w)"
          unfolding s by auto
        have "\<forall>i'. unat i0 \<le> i' \<and> i' < i \<longrightarrow> \<not> tripled ws i' (unat w)"
        proof (intro allI impI)
          fix i' assume a: "unat i0 \<le> i' \<and> i' < i"
          show "\<not> tripled ws i' (unat w)"
          proof (cases "i' = unat i0")
            case True with here show ?thesis by simp
          next
            case False
            with a have "unat i0 + 1 \<le> i' \<and> i' < i" by arith
            with i(4) show ?thesis by blast
          qed
        qed
        moreover from i(1) have "unat i0 \<le> i" by simp
        ultimately have "\<exists>i. unat i0 \<le> i \<and> i < length ws - unat w \<and> found ws (unat w) i ws' \<and>
            (\<forall>i'. unat i0 \<le> i' \<and> i' < i \<longrightarrow> \<not> tripled ws i' (unat w))"
          using i(2,3) by blast
        with eq Updated show ?thesis by simp
      next
        case InvalidErase
        with ih show ?thesis by simp
      next
        case NoUpdate
        have "\<forall>i. unat i0 \<le> i \<and> i < length ws - unat w \<longrightarrow> \<not> tripled ws i (unat w)"
        proof (intro allI impI)
          fix i assume a: "unat i0 \<le> i \<and> i < length ws - unat w"
          show "\<not> tripled ws i (unat w)"
          proof (cases "i = unat i0")
            case True with here show ?thesis by simp
          next
            case False
            with a have "unat i0 + 1 \<le> i \<and> i < length ws - unat w" by arith
            with ih NoUpdate show ?thesis unfolding s by simp
          qed
        qed
        with eq NoUpdate show ?thesis by simp
      qed
    qed
  qed
qed

lemma scan_w_spec:
  assumes n: "length ws < 2 ^ 32"
  shows "1 \<le> unat w0 \<Longrightarrow>
         \<exists>res. scan_w ws w0 = Some res \<and>
           (case res of
              Updated ws' \<Rightarrow>
                \<exists>w i. unat w0 \<le> w \<and> w < length ws div 2 \<and> i < length ws - w \<and>
                    found ws w i ws' \<and>
                    (\<forall>i'<i. \<not> tripled ws i' w) \<and>
                    (\<forall>w' i'. unat w0 \<le> w' \<and> w' < w \<and> i' < length ws - w' \<longrightarrow>
                       \<not> tripled ws i' w')
            | NoUpdate \<Rightarrow>
                \<forall>w i. unat w0 \<le> w \<and> w < length ws div 2 \<and> i < length ws - w \<longrightarrow>
                   \<not> tripled ws i w
            | InvalidErase \<Rightarrow> False)"
proof (induction "length ws div 2 - unat w0" arbitrary: w0 rule: less_induct)
  case less
  show ?case
  proof (cases "unat w0 < length ws div 2")
    case False
    then have "scan_w ws w0 = Some NoUpdate"
      by (subst scan_w.simps) simp
    with False show ?thesis by auto
  next
    case True
    then have wn: "unat w0 \<le> length ws" by arith
    from scan_i_spec [OF n less.prems wn, of 0, unfolded unat_0] obtain res0 where
      r: "scan_i ws w0 0 = Some res0" and
      row0: "case res0 of
              Updated ws' \<Rightarrow>
                \<exists>i. 0 \<le> i \<and> i < length ws - unat w0 \<and> found ws (unat w0) i ws' \<and>
                    (\<forall>i'. 0 \<le> i' \<and> i' < i \<longrightarrow> \<not> tripled ws i' (unat w0))
            | NoUpdate \<Rightarrow>
                \<forall>i. 0 \<le> i \<and> i < length ws - unat w0 \<longrightarrow> \<not> tripled ws i (unat w0)
            | InvalidErase \<Rightarrow> False"
      by blast
    from row0 have
      row: "case res0 of
              Updated ws' \<Rightarrow>
                \<exists>i. i < length ws - unat w0 \<and> found ws (unat w0) i ws' \<and>
                    (\<forall>i'. i' < i \<longrightarrow> \<not> tripled ws i' (unat w0))
            | NoUpdate \<Rightarrow> \<forall>i. i < length ws - unat w0 \<longrightarrow> \<not> tripled ws i (unat w0)
            | InvalidErase \<Rightarrow> False"
      by (cases res0) simp_all
    show ?thesis
    proof (cases res0)
      case (Updated ws0)
      with True r have eq: "scan_w ws w0 = Some (Updated ws0)"
        by (subst scan_w.simps) simp
      from row Updated obtain i where i: "i < length ws - unat w0" "found ws (unat w0) i ws0"
          "\<forall>i'<i. \<not> tripled ws i' (unat w0)"
        by auto
      have "\<exists>w i. unat w0 \<le> w \<and> w < length ws div 2 \<and> i < length ws - w \<and>
              found ws w i ws0 \<and> (\<forall>i'<i. \<not> tripled ws i' w) \<and>
              (\<forall>w' i'. unat w0 \<le> w' \<and> w' < w \<and> i' < length ws - w' \<longrightarrow> \<not> tripled ws i' w')"
        using True i by (intro exI [of _ "unat w0"] exI [of _ i]) auto
      with eq show ?thesis by simp
    next
      case InvalidErase
      with row show ?thesis by simp
    next
      case NoUpdate
      from True n have "unat w0 + 1 < 2 ^ 32" by linarith
      then have s: "unat (w0 + 1) = unat w0 + 1" by (rule unat_succ)
      from True have m: "length ws div 2 - unat (w0 + 1) < length ws div 2 - unat w0"
        unfolding s by arith
      have w1': "1 \<le> unat (w0 + 1)" unfolding s by simp
      from less.hyps [OF m w1'] obtain res where
        nx: "scan_w ws (w0 + 1) = Some res" and
        ih: "case res of
              Updated ws' \<Rightarrow>
                \<exists>w i. unat w0 + 1 \<le> w \<and> w < length ws div 2 \<and> i < length ws - w \<and>
                    found ws w i ws' \<and>
                    (\<forall>i'<i. \<not> tripled ws i' w) \<and>
                    (\<forall>w' i'. unat w0 + 1 \<le> w' \<and> w' < w \<and> i' < length ws - w' \<longrightarrow>
                       \<not> tripled ws i' w')
            | NoUpdate \<Rightarrow>
                \<forall>w i. unat w0 + 1 \<le> w \<and> w < length ws div 2 \<and> i < length ws - w \<longrightarrow>
                   \<not> tripled ws i w
            | InvalidErase \<Rightarrow> False"
        unfolding s by blast
      from True r NoUpdate nx have eq: "scan_w ws w0 = Some res"
        by (subst scan_w.simps) simp
      from row NoUpdate have here: "\<forall>i. i < length ws - unat w0 \<longrightarrow> \<not> tripled ws i (unat w0)"
        by simp
      show ?thesis
      proof (cases res)
        case (Updated ws')
        with ih obtain w i where wi: "unat w0 + 1 \<le> w" "w < length ws div 2"
            "i < length ws - w" "found ws w i ws'" "\<forall>i'<i. \<not> tripled ws i' w"
            "\<forall>w' i'. unat w0 + 1 \<le> w' \<and> w' < w \<and> i' < length ws - w' \<longrightarrow> \<not> tripled ws i' w'"
          by auto
        have "\<forall>w' i'. unat w0 \<le> w' \<and> w' < w \<and> i' < length ws - w' \<longrightarrow> \<not> tripled ws i' w'"
        proof (intro allI impI)
          fix w' i' assume a: "unat w0 \<le> w' \<and> w' < w \<and> i' < length ws - w'"
          show "\<not> tripled ws i' w'"
          proof (cases "w' = unat w0")
            case True with here a show ?thesis by simp
          next
            case False
            with a have "unat w0 + 1 \<le> w' \<and> w' < w \<and> i' < length ws - w'" by arith
            with wi(6) show ?thesis by blast
          qed
        qed
        moreover from wi(1) have "unat w0 \<le> w" by simp
        ultimately have "\<exists>w i. unat w0 \<le> w \<and> w < length ws div 2 \<and> i < length ws - w \<and>
              found ws w i ws' \<and> (\<forall>i'<i. \<not> tripled ws i' w) \<and>
              (\<forall>w' i'. unat w0 \<le> w' \<and> w' < w \<and> i' < length ws - w' \<longrightarrow> \<not> tripled ws i' w')"
          using wi(2,3,4,5) by blast
        with eq Updated show ?thesis by simp
      next
        case InvalidErase
        with ih show ?thesis by simp
      next
        case NoUpdate
        have "\<forall>w i. unat w0 \<le> w \<and> w < length ws div 2 \<and> i < length ws - w \<longrightarrow>
            \<not> tripled ws i w"
        proof (intro allI impI)
          fix w i assume a: "unat w0 \<le> w \<and> w < length ws div 2 \<and> i < length ws - w"
          show "\<not> tripled ws i w"
          proof (cases "w = unat w0")
            case True with here a show ?thesis by simp
          next
            case False
            with a have "unat w0 + 1 \<le> w \<and> w < length ws div 2 \<and> i < length ws - w" by arith
            with ih NoUpdate show ?thesis by simp
          qed
        qed
        with eq NoUpdate show ?thesis by simp
      qed
    qed
  qed
qed

lemma scan_w_first:
  assumes "length ws < 2 ^ 32"
  shows "\<exists>res. scan_w ws 1 = Some res \<and>
           (case res of
              Updated ws' \<Rightarrow> \<exists>w i. first_found ws w i ws'
            | NoUpdate \<Rightarrow> quiet ws
            | InvalidErase \<Rightarrow> False)"
proof -
  have "1 \<le> unat (1 :: 32 word)" by simp
  from scan_w_spec [OF assms this, unfolded unat_1] obtain res where
    r: "scan_w ws 1 = Some res" and
    sp: "case res of
              Updated ws' \<Rightarrow>
                \<exists>w i. 1 \<le> w \<and> w < length ws div 2 \<and> i < length ws - w \<and>
                    found ws w i ws' \<and>
                    (\<forall>i'<i. \<not> tripled ws i' w) \<and>
                    (\<forall>w' i'. 1 \<le> w' \<and> w' < w \<and> i' < length ws - w' \<longrightarrow>
                       \<not> tripled ws i' w')
            | NoUpdate \<Rightarrow>
                \<forall>w i. 1 \<le> w \<and> w < length ws div 2 \<and> i < length ws - w \<longrightarrow>
                   \<not> tripled ws i w
            | InvalidErase \<Rightarrow> False"
    by blast
  from sp have "case res of
              Updated ws' \<Rightarrow> \<exists>w i. first_found ws w i ws'
            | NoUpdate \<Rightarrow> quiet ws
            | InvalidErase \<Rightarrow> False"
    by (cases res) (simp_all add: first_found_def quiet_def)
  with r show ?thesis by blast
qed

lemma run_at_bound: "run_at ws i w r \<Longrightarrow> 1 \<le> r \<Longrightarrow> i + r * w \<le> length ws"
proof -
  assume a: "run_at ws i w r" "1 \<le> r"
  then have "eq_words ws i (i + (r - 1) * w) w" by (simp add: run_at_def)
  then have "i + (r - 1) * w + w \<le> length ws" using eq_words_bounds by blast
  moreover from a(2) have "(r - 1) * w + w = r * w"
    by (cases r) simp_all
  ultimately show ?thesis by simp
qed

lemma found_shorter:
  assumes "1 \<le> w" "found ws w i ws'"
  shows "length ws' < length ws"
proof -
  from assms(2) obtain r where r: "3 \<le> r" "run_at ws i w r"
      "ws' = take (i + w) ws @ drop (i + r * w) ws"
    by (auto simp: found_def)
  then have b: "i + r * w \<le> length ws" using run_at_bound by simp
  from r(1) assms(1) have "w < r * w" by simp
  then have lt: "i + w < i + r * w" by simp
  with b have "i + w \<le> length ws" by arith
  then have "length (take (i + w) ws) = i + w" by simp
  moreover have "length (drop (i + r * w) ws) = length ws - (i + r * w)" by simp
  ultimately have "length ws' = (i + w) + (length ws - (i + r * w))"
    using r(3) by simp
  with b lt show ?thesis by arith
qed

lemma run_at_concat:
  "run_at ws i w r \<Longrightarrow> take (r * w) (drop i ws) = concat (replicate r (take w (drop i ws)))"
proof (induction r)
  case 0
  then show ?case by simp
next
  case (Suc r)
  then have ra: "run_at ws i w r" and e: "eq_words ws i (i + r * w) w"
    by (simp_all add: run_at_Suc)
  from e have blk: "take w (drop (i + r * w) ws) = take w (drop i ws)"
    by (simp add: eq_words_iff)
  have "take (Suc r * w) (drop i ws) = take (r * w + w) (drop i ws)"
    by (simp add: add.commute)
  also have "\<dots> = take (r * w) (drop i ws) @ take w (drop (r * w) (drop i ws))"
    by (rule take_add)
  also have "drop (r * w) (drop i ws) = drop (i + r * w) ws"
    by (simp add: add.commute)
  also have "take (r * w) (drop i ws) = concat (replicate r (take w (drop i ws)))"
    using Suc.IH [OF ra] .
  finally have "take (Suc r * w) (drop i ws) =
      concat (replicate r (take w (drop i ws))) @ take w (drop i ws)"
    by (simp add: blk)
  also have "\<dots> = concat (replicate r (take w (drop i ws)) @ [take w (drop i ws)])"
    by simp
  also have "\<dots> = concat (replicate (Suc r) (take w (drop i ws)))"
    by (simp only: replicate_append_same replicate_Suc)
  finally show ?case .
qed

lemma triple_is_tripled:
  assumes "ws = p @ b @ b @ b @ q" "b \<noteq> []"
  shows "tripled ws (length p) (length b)"
    and "1 \<le> length b"
    and "length p < length ws - length b"
    and "length ws \<noteq> 3 \<Longrightarrow> length b < length ws div 2"
proof -
  define w where "w = length b"
  define i where "i = length p"
  from assms(2) show w1: "1 \<le> length b" by (cases b) simp_all
  from assms(1) have len: "length ws = i + 3 * w + length q" by (simp add: w_def i_def)
  with w1 show "length p < length ws - length b" unfolding w_def i_def by arith
  have "take w (drop i ws) = b" by (simp add: assms(1) w_def i_def)
  moreover have "take w (drop (i + w) ws) = b" by (simp add: assms(1) w_def i_def)
  moreover have "take w (drop (i + 2 * w) ws) = b" by (simp add: assms(1) w_def i_def)
  ultimately show "tripled ws (length p) (length b)"
    using len by (simp add: tripled_def eq_words_iff w_def i_def)
  assume "length ws \<noteq> 3"
  with len w1 show "length b < length ws div 2" unfolding w_def by arith
qed

lemma first_found_collapse:
  assumes ff: "first_found ws w i ws'"
  shows "collapse ws ws'"
proof -
  from ff have w1: "1 \<le> w" and fd: "found ws w i ws'"
    and left: "\<forall>i'<i. \<not> tripled ws i' w"
    and narrower: "\<forall>w' i'. 1 \<le> w' \<and> w' < w \<and> i' < length ws - w' \<longrightarrow> \<not> tripled ws i' w'"
    by (simp_all add: first_found_def)
  from fd obtain r where r: "3 \<le> r" "run_at ws i w r"
      "\<not> eq_words ws i (i + r * w) w" "ws' = take (i + w) ws @ drop (i + r * w) ws"
    by (auto simp: found_def)
  define pre where "pre = take i ws"
  define blk where "blk = take w (drop i ws)"
  define post where "post = drop (i + r * w) ws"
  from r(1,2) have b: "i + r * w \<le> length ws" using run_at_bound by simp
  from r(1) w1 have "w \<le> r * w" by simp
  with b have bw: "i + w \<le> length ws" by arith
  then have lblk: "length blk = w" by (simp add: blk_def)
  from bw have lpre: "length pre = i" by (simp add: pre_def)
  from lblk w1 have ne: "blk \<noteq> []" by auto
  have "ws = take i ws @ take (r * w) (drop i ws) @ drop (r * w) (drop i ws)"
    by (simp only: append_take_drop_id)
  also have "drop (r * w) (drop i ws) = post"
    by (simp add: post_def add.commute)
  also have "take (r * w) (drop i ws) = concat (replicate r blk)"
    unfolding blk_def using r(2) by (rule run_at_concat)
  finally have src: "ws = pre @ concat (replicate r blk) @ post"
    by (simp add: pre_def)
  have "take (i + w) ws = take i ws @ take w (drop i ws)"
    by (rule take_add)
  with r(4) have dst: "ws' = pre @ blk @ post"
    by (simp add: pre_def blk_def post_def)
  have mx: "take (length blk) post \<noteq> blk"
  proof
    assume a: "take (length blk) post = blk"
    then have "length (take w (drop (i + r * w) ws)) = w"
      using lblk by (simp add: post_def)
    then have "w \<le> length ws - (i + r * w)" by simp
    with b have "i + r * w + w \<le> length ws" by arith
    with bw a lblk have "eq_words ws i (i + r * w) w"
      by (simp add: eq_words_iff post_def blk_def)
    with r(3) show False by simp
  qed
  have first: "\<forall>p c q. c \<noteq> [] \<and> pre @ concat (replicate r blk) @ post = p @ c @ c @ c @ q \<longrightarrow>
      length blk < length c \<or> (length c = length blk \<and> length pre \<le> length p)"
  proof (intro allI impI)
    fix p c q
    assume a: "c \<noteq> [] \<and> pre @ concat (replicate r blk) @ post = p @ c @ c @ c @ q"
    then have eq: "ws = p @ c @ c @ c @ q" and cne: "c \<noteq> []" using src by simp_all
    note t = triple_is_tripled(1,2,3) [OF eq cne]
    show "length blk < length c \<or> (length c = length blk \<and> length pre \<le> length p)"
    proof (rule ccontr)
      assume "\<not> ?thesis"
      then have "length c < w \<or> (length c = w \<and> length p < i)"
        unfolding lblk lpre by arith
      then show False
      proof
        assume "length c < w"
        with narrower t show False by blast
      next
        assume "length c = w \<and> length p < i"
        with left t(1) show False by auto
      qed
    qed
  qed
  have lm: "\<forall>pre'. pre \<noteq> pre' @ blk"
  proof (intro allI notI)
    fix pre' assume p: "pre = pre' @ blk"
    from r(1) obtain k where k: "r = Suc (Suc k)" by (cases r; cases "r - 1") auto
    have "pre @ concat (replicate r blk) @ post =
        pre' @ blk @ blk @ blk @ (concat (replicate k blk) @ post)"
      by (simp add: p k)
    with first ne have "length blk < length blk \<or> (length blk = length blk \<and> length pre \<le> length pre')"
      by blast
    with p ne show False by simp
  qed
  from collapse_run [OF ne r(1) mx lm first] src dst show ?thesis by simp
qed

lemma fixloop_spec:
  "length ws < 2 ^ 32 \<Longrightarrow>
   \<exists>out. fixloop ws = Some (Inr out) \<and> collapse\<^sup>*\<^sup>* ws out \<and> quiet out"
proof (induction "length ws" arbitrary: ws rule: less_induct)
  case less
  from scan_w_first [OF less.prems] obtain res where r: "scan_w ws 1 = Some res"
    and spec: "case res of
              Updated ws' \<Rightarrow> \<exists>w i. first_found ws w i ws'
            | NoUpdate \<Rightarrow> quiet ws
            | InvalidErase \<Rightarrow> False"
    by blast
  show ?case
  proof (cases res)
    case NoUpdate
    with r have "fixloop ws = Some (Inr ws)" by (subst fixloop.simps) simp
    moreover from spec NoUpdate have "quiet ws" by simp
    ultimately show ?thesis by blast
  next
    case InvalidErase
    with spec show ?thesis by simp
  next
    case (Updated ws')
    with spec obtain w i where ff: "first_found ws w i ws'" by auto
    then have "length ws' < length ws"
      by (auto simp: first_found_def intro: found_shorter)
    moreover with less.prems have "length ws' < 2 ^ 32" by simp
    ultimately obtain out where o: "fixloop ws' = Some (Inr out)" "collapse\<^sup>*\<^sup>* ws' out" "quiet out"
      using less.hyps by blast
    from r Updated o(1) have "fixloop ws = Some (Inr out)"
      by (subst fixloop.simps) simp
    moreover from ff have "collapse ws ws'" by (rule first_found_collapse)
    ultimately show ?thesis using o by (meson converse_rtranclp_into_rtranclp)
  qed
qed

lemma quiet_no_triple:
  assumes "quiet ws" "length ws \<noteq> 3"
  shows "\<not> (\<exists>pre blk post. blk \<noteq> [] \<and> ws = pre @ blk @ blk @ blk @ post)"
proof
  assume "\<exists>pre blk post. blk \<noteq> [] \<and> ws = pre @ blk @ blk @ blk @ post"
  then obtain pre blk post where ne: "blk \<noteq> []" and ws: "ws = pre @ blk @ blk @ blk @ post"
    by blast
  note t = triple_is_tripled [OF ws ne]
  from t(4) [OF assms(2)] t(2,3) assms(1) have "\<not> tripled ws (length pre) (length blk)"
    by (simp add: quiet_def)
  with t(1) show False by blast
qed

lemma foldl_join_step:
  "acc \<noteq> [] \<Longrightarrow> foldl join_step acc ws = acc @ concat (map (\<lambda>x. '' '' @ x) ws)"
  by (induction ws arbitrary: acc) (simp_all add: join_step_def)

lemma join_words_spaces:
  "join_words ws =
     (case dropWhile (\<lambda>w. w = []) ws of
        [] \<Rightarrow> []
      | w # rest \<Rightarrow> w @ concat (map (\<lambda>x. '' '' @ x) rest))"
proof (induction ws)
  case Nil
  then show ?case by (simp add: join_words_def)
next
  case (Cons w ws)
  show ?case
  proof (cases "w = []")
    case True
    then have "join_words (w # ws) = join_words ws"
      by (simp add: join_words_def join_step_def)
    with Cons True show ?thesis by simp
  next
    case False
    have "join_words (w # ws) = foldl join_step w ws"
      by (simp add: join_words_def join_step_def)
    also have "\<dots> = w @ concat (map (\<lambda>x. '' '' @ x) ws)"
      using False by (rule foldl_join_step)
    finally show ?thesis using False by (simp del: append.simps)
  qed
qed

lemma getline_words_repeated:
  "getline_words [] (concat (replicate n ''a '')) = replicate n ''a''"
  by (induction n) simp_all

lemma scan_r_equal_words_never_returns:
  assumes "2 ^ 32 \<le> n"
  shows "scan_r (replicate n x) 0 1 r0 = None"
proof (rule ccontr)
  assume "scan_r (replicate n x) 0 1 r0 \<noteq> None"
  then obtain y0 where y0: "scan_r (replicate n x) 0 1 r0 = Some y0" by blast
  have never: "\<not> (ws = replicate n x \<and> i = 0 \<and> w = 1)"
    if "scan_r ws i w r = Some y" for ws i w r y
  proof (rule scan_r.raw_induct
      [where P = "\<lambda>ws i w r y. \<not> (ws = replicate n x \<and> i = 0 \<and> w = 1)", OF _ that])
    fix f :: "string list \<Rightarrow> 32 word \<Rightarrow> 32 word \<Rightarrow> 32 word \<Rightarrow> scan option"
    fix ws i w r y
    assume ih: "\<And>ws i w r y. f ws i w r = Some y \<Longrightarrow> \<not> (ws = replicate n x \<and> i = 0 \<and> w = 1)"
    assume body:
      "(if \<not> eq_words ws (unat i) (unat (i + r * w)) (unat w)
        then if 3 \<le> r
             then case erase ws (unat i + unat w) (unat i + unat (r * w)) of
                    None \<Rightarrow> Some InvalidErase
                  | Some ws \<Rightarrow> Some (Updated ws)
             else Some NoUpdate
        else f ws i w (r + 1)) = Some y"
    show "\<not> (ws = replicate n x \<and> i = 0 \<and> w = 1)"
    proof
      assume a: "ws = replicate n x \<and> i = 0 \<and> w = 1"
      have "unat r < 2 ^ 32" using unsigned_less [of r] by simp
      with assms have "unat r + 1 \<le> n" by linarith
      then have "eq_words ws (unat i) (unat (i + r * w)) (unat w)"
        using a by (simp add: eq_words_def)
      with body have "f ws i w (r + 1) = Some y" by simp
      from ih [OF this] a show False by simp
    qed
  qed
  from never [OF y0] show False by simp
qed

text \<open>From \<open>2 ^ 32\<close> equal words on, the first repetition scan does not return.\<close>

lemma fixloop_equal_words_never_returns:
  assumes "2 ^ 32 \<le> n"
  shows "fixloop (replicate n x) = None"
proof -
  from assms have big: "(4::nat) \<le> n"
    by (rule order_trans [rotated]) simp
  have r: "scan_r (replicate n x) 0 1 1 = None"
    using assms by (rule scan_r_equal_words_never_returns)
  from big have "scan_i (replicate n x) 1 0 = None"
    by (subst scan_i.simps) (simp add: r size_minus_def)
  with big have "scan_w (replicate n x) 1 = None"
    by (subst scan_w.simps) simp
  then show ?thesis
    by (subst fixloop.simps) simp
qed

text \<open>
  Claim C7, as amended. For every input string of fewer than \<open>2 ^ 32\<close> words, \<open>dedup\<close>
  returns, and its result is the join of a word list that is reached from the input's
  words by collapse steps. Each step takes the first block, in the order of the scans
  (shortest width first, then leftmost), that is followed by at least two copies of
  itself, replaces the whole run of \<open>r \<ge> 3\<close> consecutive copies (no copy precedes the
  run, none follows it) by one copy, and leaves every other word as it is. Unless the
  final list has exactly three words, no block occurs in it three times in a row. The
  join drops the empty words at the front and puts one space in front of every word
  after the first that is left.
\<close>

theorem dedup_collapses_runs:
  assumes "length (getline_words [] var) < 2 ^ 32"
  shows "\<exists>ws. fixloop (getline_words [] var) = Some (Inr ws) \<and>
           dedup var = Some (Inr (join_words ws)) \<and>
           collapse\<^sup>*\<^sup>* (getline_words [] var) ws \<and>
           (length ws \<noteq> 3 \<longrightarrow>
              \<not> (\<exists>pre blk post. blk \<noteq> [] \<and> ws = pre @ blk @ blk @ blk @ post)) \<and>
           join_words ws =
             (case dropWhile (\<lambda>w. w = []) ws of
                [] \<Rightarrow> []
              | w # rest \<Rightarrow> w @ concat (map (\<lambda>x. '' '' @ x) rest))"
proof -
  from fixloop_spec [OF assms] obtain ws where
    ws: "fixloop (getline_words [] var) = Some (Inr ws)" and
    c: "collapse\<^sup>*\<^sup>* (getline_words [] var) ws" and q: "quiet ws"
    by blast
  have "dedup var = Some (Inr (join_words ws))"
    by (simp add: dedup_def ws)
  moreover have "length ws \<noteq> 3 \<longrightarrow>
      \<not> (\<exists>pre blk post. blk \<noteq> [] \<and> ws = pre @ blk @ blk @ blk @ post)"
    using quiet_no_triple [OF q] by blast
  ultimately show ?thesis using ws c join_words_spaces by blast
qed

lemma fixloop_example: "fixloop [''a'', ''a'', ''a'', ''a'', ''b''] = Some (Inr [''a'', ''b''])"
  by code_simp

lemma getline_example: "getline_words [] ''a a a a b'' = [''a'', ''a'', ''a'', ''a'', ''b'']"
  by code_simp

lemma collapse_takes_the_whole_run:
  "\<not> collapse [''a'', ''a'', ''a'', ''a'', ''b''] [''a'', ''a'', ''b'']"
proof
  assume "collapse [''a'', ''a'', ''a'', ''a'', ''b''] [''a'', ''a'', ''b'']"
  then obtain pre blk r post where
    src: "[''a'', ''a'', ''a'', ''a'', ''b''] = pre @ concat (replicate r blk) @ post" and
    dst: "[''a'', ''a'', ''b''] = pre @ blk @ post" and
    ne: "blk \<noteq> []" and mx: "take (length blk) post \<noteq> blk" and
    first: "\<forall>p b q. b \<noteq> [] \<and> pre @ concat (replicate r blk) @ post = p @ b @ b @ b @ q \<longrightarrow>
        length blk < length b \<or> (length b = length blk \<and> length pre \<le> length p)"
    by (auto elim!: collapse.cases)
  have "[''a''] \<noteq> [] \<and>
      pre @ concat (replicate r blk) @ post = [] @ [''a''] @ [''a''] @ [''a''] @ [''a'', ''b'']"
    using src by simp
  with first have "length blk < length [''a''] \<or>
      (length [''a''] = length blk \<and> length pre \<le> length ([] :: string list))"
    by blast
  with ne have l: "length blk = 1" and p: "pre = []" by (cases blk; simp)+
  from l obtain b where b: "blk = [b]" by (cases blk) auto
  from dst p b have "b = ''a''" "post = [''a'', ''b'']" by auto
  with mx b show False by simp
qed

theorem dedup_collapses_runs_witness:
  "length (getline_words [] ''a a a a b'') < 2 ^ 32 \<and>
   dedup ''a a a a b'' = Some (Inr ''a b'') \<and>
   collapse\<^sup>*\<^sup>* [''a'', ''a'', ''a'', ''a'', ''b''] [''a'', ''b''] \<and>
   \<not> (\<exists>pre blk post. blk \<noteq> [] \<and> [''a'', ''b''] = pre @ blk @ blk @ blk @ post)"
proof -
  have n: "length (getline_words [] ''a a a a b'') < 2 ^ 32"
    by (simp add: getline_example)
  from dedup_collapses_runs [OF n] obtain ws where
    ws: "fixloop (getline_words [] ''a a a a b'') = Some (Inr ws)"
      "dedup ''a a a a b'' = Some (Inr (join_words ws))"
      "collapse\<^sup>*\<^sup>* (getline_words [] ''a a a a b'') ws"
      "length ws \<noteq> 3 \<longrightarrow> \<not> (\<exists>pre blk post. blk \<noteq> [] \<and> ws = pre @ blk @ blk @ blk @ post)"
    by blast
  from ws(1) have eq: "ws = [''a'', ''b'']"
    by (simp add: getline_example fixloop_example)
  have "join_words [''a'', ''b''] = ''a b''" by code_simp
  with ws eq n show ?thesis by (simp add: getline_example)
qed

text \<open>
  The claim as stated fails on three equal words: the scan of width one needs
  \<open>1 < words.size() / 2\<close>, so a vector of three words is never scanned.
\<close>

theorem dedup_three_words_counterexample:
  "getline_words [] ''a a a'' = [] @ concat (replicate 3 [''a'']) @ [] \<and>
   dedup ''a a a'' = Some (Inr ''a a a'') \<and>
   dedup ''a a a'' \<noteq> Some (Inr (join_words ([] @ [''a''] @ [])))"
  by code_simp

text \<open>
  Claim C10, as amended. \<open>dedup\<close> terminates on every input string of fewer than \<open>2 ^ 32\<close>
  words: it returns a result. On a vector of that size each pass of the outer loop
  returns, and either erased words, so that the vector is strictly shorter when the
  loop goes round again, or made no update, and then the loop exits with the vector it
  has. The comparison \<open>eq\<close> is false for a block that extends past the end of the vector,
  and the repetition scan over \<open>r\<close> returns for every position and every block width
  \<open>w \<ge> 1\<close> that the scans use.
\<close>

theorem dedup_terminates:
  assumes "length (getline_words [] var) < 2 ^ 32"
  shows "(\<exists>out. dedup var = Some (Inr out)) \<and>
   (\<forall>ws. length ws < 2 ^ 32 \<longrightarrow>
      (\<exists>res. scan_w ws 1 = Some res \<and>
        (case res of
           Updated ws' \<Rightarrow> length ws' < length ws \<and> fixloop ws = fixloop ws'
         | NoUpdate \<Rightarrow> fixloop ws = Some (Inr ws)
         | InvalidErase \<Rightarrow> False))) \<and>
   (\<forall>ws i j w. length ws < j + w \<longrightarrow> \<not> eq_words ws i j w) \<and>
   (\<forall>ws i w. length ws < 2 ^ 32 \<and> 1 \<le> unat w \<and> unat i + unat w \<le> length ws \<longrightarrow>
      (\<exists>res. scan_r ws i w 1 = Some res))"
proof (intro conjI allI impI)
  from fixloop_spec [OF assms] obtain ws where "fixloop (getline_words [] var) = Some (Inr ws)"
    by blast
  then show "\<exists>out. dedup var = Some (Inr out)" by (simp add: dedup_def)
next
  fix ws :: "string list"
  assume n: "length ws < 2 ^ 32"
  from scan_w_first [OF n] obtain res where r: "scan_w ws 1 = Some res"
    and spec: "case res of
              Updated ws' \<Rightarrow> \<exists>w i. first_found ws w i ws'
            | NoUpdate \<Rightarrow> quiet ws
            | InvalidErase \<Rightarrow> False"
    by blast
  show "\<exists>res. scan_w ws 1 = Some res \<and>
      (case res of
         Updated ws' \<Rightarrow> length ws' < length ws \<and> fixloop ws = fixloop ws'
       | NoUpdate \<Rightarrow> fixloop ws = Some (Inr ws)
       | InvalidErase \<Rightarrow> False)"
  proof (cases res)
    case NoUpdate
    with r show ?thesis by (subst fixloop.simps) simp
  next
    case InvalidErase
    with spec show ?thesis by simp
  next
    case (Updated ws')
    with spec obtain w i where "first_found ws w i ws'" by auto
    then have "length ws' < length ws"
      by (auto simp: first_found_def intro: found_shorter)
    moreover from r Updated have "fixloop ws = fixloop ws'" by (subst fixloop.simps) simp
    ultimately show ?thesis using r Updated by simp
  qed
next
  fix ws :: "string list" and i j w
  assume "length ws < j + w"
  then show "\<not> eq_words ws i j w" by (simp add: eq_words_def)
next
  fix ws :: "string list" and i w :: "32 word"
  assume a: "length ws < 2 ^ 32 \<and> 1 \<le> unat w \<and> unat i + unat w \<le> length ws"
  then have "length ws < 2 ^ 32" "1 \<le> unat w" "unat i + unat w \<le> length ws" by simp_all
  from scan_r_first [OF this] show "\<exists>res. scan_r ws i w 1 = Some res" by blast
qed

lemma getline_example2:
  "getline_words [] ''x y x y x y z'' = [''x'', ''y'', ''x'', ''y'', ''x'', ''y'', ''z'']"
  by code_simp

theorem dedup_terminates_witness:
  "length (getline_words [] ''x y x y x y z'') < 2 ^ 32 \<and>
   dedup ''x y x y x y z'' = Some (Inr ''x y z'') \<and>
   scan_w [''x'', ''y'', ''x'', ''y'', ''x'', ''y'', ''z''] 1 = Some (Updated [''x'', ''y'', ''z'']) \<and>
   \<not> eq_words [''x'', ''y''] 0 1 2 \<and>
   (\<exists>res. scan_r [''x'', ''y'', ''x'', ''y'', ''x'', ''y'', ''z''] 0 2 1 = Some res)"
proof -
  have n: "length (getline_words [] ''x y x y x y z'') < 2 ^ 32"
    by (simp add: getline_example2)
  note t = dedup_terminates [OF n]
  have pre: "length [''x'', ''y'', ''x'', ''y'', ''x'', ''y'', ''z''] < 2 ^ 32 \<and>
      1 \<le> unat (2 :: 32 word) \<and>
      unat (0 :: 32 word) + unat (2 :: 32 word) \<le> length [''x'', ''y'', ''x'', ''y'', ''x'', ''y'', ''z'']"
    by simp
  from t pre have a: "\<exists>res. scan_r [''x'', ''y'', ''x'', ''y'', ''x'', ''y'', ''z''] 0 2 1 = Some res"
    by blast
  have "length [''x'', ''y''] < (1::nat) + 2" by simp
  with t have b: "\<not> eq_words [''x'', ''y''] 0 1 2"
    by blast
  have c: "dedup ''x y x y x y z'' = Some (Inr ''x y z'')" by code_simp
  have d: "scan_w [''x'', ''y'', ''x'', ''y'', ''x'', ''y'', ''z''] 1 = Some (Updated [''x'', ''y'', ''z''])"
    by code_simp
  from n a b c d show ?thesis by blast
qed

text \<open>
  The claim as stated fails on \<open>2 ^ 32\<close> equal words: the 32-bit counter \<open>r\<close> wraps to zero
  before the index \<open>i + r * w\<close> passes the end of the vector, so the block comparison
  never fails and the repetition scan goes on for ever.
\<close>

theorem dedup_never_returns_counterexample:
  "getline_words [] (concat (replicate (2 ^ 32) ''a '')) = replicate (2 ^ 32) ''a'' \<and>
   dedup (concat (replicate (2 ^ 32) ''a '')) = None"
proof -
  have g: "getline_words [] (concat (replicate (2 ^ 32) ''a '')) = replicate (2 ^ 32) ''a''"
    by (rule getline_words_repeated)
  have "fixloop (replicate (2 ^ 32) ''a'') = None"
    by (rule fixloop_equal_words_never_returns) (rule order_refl)
  with g show ?thesis by (simp only: dedup_def option.map simp_thms)
qed

section \<open>Chat::getVoice\<close>

text \<open>
  Claim C8. When the \<open>voices\<close> list is not empty, \<open>getVoice(n)\<close> returns \<open>voicesMap[n]\<close>
  if \<open>n\<close> has an entry and otherwise \<open>voices[(hash(n) ^ 1) % voices.size()]\<close>, whose index
  is within the list. The precondition is needed: for a name without an entry and an
  empty list the index computation is a remainder by zero.
\<close>

theorem getVoice_mapped_or_hashed:
  "(voices c \<noteq> [] \<longrightarrow>
      voice_index hash c n < length (voices c) \<and>
      getVoice hash c n =
        Inr (case voicesMap c n of
               Some v \<Rightarrow> v
             | None \<Rightarrow> voices c ! (unat (hash n XOR 1) mod length (voices c)))) \<and>
   (voices c = [] \<and> voicesMap c n = None \<longrightarrow> getVoice hash c n = Inl DivisionByZero)"
  by (auto simp: getVoice_def voice_index_def split: option.splits)

theorem getVoice_mapped_or_hashed_witness:
  "getVoice demo_hash demo_chat ''amy'' = Inr ''en-GB-C'' \<and>
   getVoice demo_hash demo_chat ''bob'' = Inr ''en-GB-C'' \<and>
   getVoice demo_hash (demo_chat\<lparr>voices := []\<rparr>) ''bob'' = Inl DivisionByZero"
proof -
  have v: "voices demo_chat \<noteq> []" by (simp add: demo_chat_def)
  have e: "voices (demo_chat\<lparr>voices := []\<rparr>) = [] \<and>
           voicesMap (demo_chat\<lparr>voices := []\<rparr>) ''bob'' = None"
    by (simp add: demo_chat_def)
  from getVoice_mapped_or_hashed [of demo_chat demo_hash "''amy''"] v
  have 1: "getVoice demo_hash demo_chat ''amy'' = Inr ''en-GB-C''"
    by (simp add: demo_chat_def)
  from getVoice_mapped_or_hashed [of demo_chat demo_hash "''bob''"] v
  have 2: "getVoice demo_hash demo_chat ''bob'' = Inr ''en-GB-C''"
    by (simp add: demo_chat_def demo_hash_def)
  from getVoice_mapped_or_hashed [of "demo_chat\<lparr>voices := []\<rparr>" demo_hash "''bob''"] e
  have 3: "getVoice demo_hash (demo_chat\<lparr>voices := []\<rparr>) ''bob'' = Inl DivisionByZero"
    by blast
  from 1 2 3 show ?thesis by blast
qed

section \<open>Sprite: the invariant of the sheet geometry\<close>

lemma renderUi_fields:
  "cols (Sprite_renderUi ui s) = (if ui ''Cols'' (cols s) < 1 then 1 else ui ''Cols'' (cols s))"
  "rows (Sprite_renderUi ui s) = (if ui ''Rows'' (rows s) < 1 then 1 else ui ''Rows'' (rows s))"
  "numFrames (Sprite_renderUi ui s) =
     (if ui ''NumFrames'' (numFrames s) < 1 then 1 else ui ''NumFrames'' (numFrames s))"
  by (simp_all add: Sprite_renderUi_def Let_def)

lemma inv_no_division_by_zero:
  assumes "sprite_inv s"
  shows "Sprite_w s \<noteq> Inl DivisionByZero"
    and "Sprite_h s \<noteq> Inl DivisionByZero"
    and "Sprite_isTransparent s v \<noteq> Inl DivisionByZero"
proof -
  from assms have nz: "cols s \<noteq> 0" "rows s \<noteq> 0" "numFrames s \<noteq> 0"
    by (auto simp: sprite_inv_def)
  then show "Sprite_w s \<noteq> Inl DivisionByZero" "Sprite_h s \<noteq> Inl DivisionByZero"
    by (simp_all add: Sprite_w_def Sprite_h_def)
  from nz show "Sprite_isTransparent s v \<noteq> Inl DivisionByZero"
    by (simp add: Sprite_isTransparent_def Sprite_w_def Sprite_h_def Let_def split: option.splits)
qed

text \<open>
  Claim C9. Whatever the three input widgets leave in the fields, \<open>Sprite::renderUi\<close>
  returns with \<open>cols \<ge> 1\<close>, \<open>rows \<ge> 1\<close> and \<open>numFrames \<ge> 1\<close>: a smaller value is set back
  to 1 and any other value is kept. For every sprite with these three bounds the
  divisions in \<open>w()\<close>, \<open>h()\<close> and \<open>isTransparent\<close> have a divisor other than zero.
\<close>

theorem renderUi_restores_invariant:
  "sprite_inv (Sprite_renderUi ui s) \<and>
   cols (Sprite_renderUi ui s) = max 1 (ui ''Cols'' (cols s)) \<and>
   rows (Sprite_renderUi ui s) = max 1 (ui ''Rows'' (rows s)) \<and>
   numFrames (Sprite_renderUi ui s) = max 1 (ui ''NumFrames'' (numFrames s)) \<and>
   (\<forall>s' v. sprite_inv s' \<longrightarrow>
      Sprite_w s' \<noteq> Inl DivisionByZero \<and>
      Sprite_h s' \<noteq> Inl DivisionByZero \<and>
      Sprite_isTransparent s' v \<noteq> Inl DivisionByZero)"
  using inv_no_division_by_zero
  by (auto simp: renderUi_fields sprite_inv_def max_def)

theorem renderUi_restores_invariant_witness:
  "cols (Sprite_renderUi (\<lambda>label v. 0) demo_sprite) = 1 \<and>
   rows (Sprite_renderUi (\<lambda>label v. 0) demo_sprite) = 1 \<and>
   numFrames (Sprite_renderUi (\<lambda>label v. 0) demo_sprite) = 1 \<and>
   Sprite_w (Sprite_renderUi (\<lambda>label v. 0) demo_sprite) = Inr 64 \<and>
   Sprite_isTransparent (Sprite_renderUi (\<lambda>label v. 0) demo_sprite) (1, 1) \<noteq> Inl DivisionByZero \<and>
   Sprite_w (demo_sprite\<lparr>cols := 0\<rparr>) = Inl DivisionByZero"
proof -
  note t = renderUi_restores_invariant [of "\<lambda>label v. 0" demo_sprite]
  from t have inv: "sprite_inv (Sprite_renderUi (\<lambda>label v. 0) demo_sprite)" by blast
  with t have "Sprite_isTransparent (Sprite_renderUi (\<lambda>label v. 0) demo_sprite) (1, 1) \<noteq> Inl DivisionByZero"
    by blast
  moreover from t have "cols (Sprite_renderUi (\<lambda>label v. 0) demo_sprite) = 1"
    "rows (Sprite_renderUi (\<lambda>label v. 0) demo_sprite) = 1"
    "numFrames (Sprite_renderUi (\<lambda>label v. 0) demo_sprite) = 1"
    by simp_all
  moreover have "Sprite_w (Sprite_renderUi (\<lambda>label v. 0) demo_sprite) = Inr 64"
    by (simp add: Sprite_w_def Sprite_renderUi_def demo_sprite_def)
  moreover have "Sprite_w (demo_sprite\<lparr>cols := 0\<rparr>) = Inl DivisionByZero"
    by (simp add: Sprite_w_def)
  ultimately show ?thesis by blast
qed

section \<open>render: the call of the base class\<close>

lemma base_renders_append [simp]:
  "base_renders (xs @ ys) = base_renders xs @ base_renders ys"
  by (simp add: base_renders_def)

lemma base_renders_lines: "base_renders (fst (render_lines c m d ls y)) = []"
proof (induction ls arbitrary: y)
  case Nil
  then show ?case by (simp add: base_renders_def)
next
  case (Cons l ls)
  show ?case
  proof (cases "y > Chat_h c")
    case True
    then show ?thesis by (simp add: base_renders_def)
  next
    case False
    obtain later y' where r: "render_lines c m d ls (y + snd d) = (later, y')"
      by (cases "render_lines c m d ls (y + snd d)")
    with Cons.IH [of "y + snd d"] have "base_renders later = []" by simp
    with False r show ?thesis
      by (simp add: Let_def) (simp add: base_renders_def)
  qed
qed

lemma base_renders_msgs: "base_renders (render_msgs c ms y) = []"
proof (induction ms arbitrary: y)
  case Nil
  then show ?case by (simp add: base_renders_def)
next
  case (Cons m ms)
  define d where "d = getSize c (displayName m)"
  define wl where "wl = rev (wrapText c ('': '' @ msg m) (fst d))"
  obtain calls y' where r: "render_lines c m d wl y = (calls, y')"
    by (cases "render_lines c m d wl y")
  from base_renders_lines [of c m d wl y] r have c0: "base_renders calls = []" by simp
  have "render_msgs c (m # ms) y =
        glColor3f 1 1 1 # calls @ (if y' > Chat_h c then [] else render_msgs c ms y')"
    using r by (simp add: Let_def d_def wl_def)
  moreover have "base_renders [glColor3f 1 1 1 :: 'a call] = []"
    by (simp add: base_renders_def)
  ultimately have "base_renders (render_msgs c (m # ms) y) =
      base_renders (if y' > Chat_h c then [] else render_msgs c ms y')"
    using c0 base_renders_append [of "[glColor3f 1 1 1]" "calls @ (if y' > Chat_h c then [] else render_msgs c ms y')"]
    by simp
  with Cons.IH [of y'] show ?case by (simp add: base_renders_def)
qed

text \<open>
  In the two cases in which \<open>frame % cols\<close> is undefined, \<open>Sprite::render\<close> does not get as
  far as the base class.
\<close>

lemma Sprite_render_undefined:
  "cols s = 0 \<Longrightarrow> Sprite_render flt s dt hov sel = Inl DivisionByZero"
  "frame s = INT_MIN \<Longrightarrow> cols s = - 1 \<Longrightarrow> Sprite_render flt s dt hov sel = Inl SignedOverflow"
  by (simp_all add: Sprite_render_def)

text \<open>
  Claim C6, as amended. Every call of \<open>Chat::render\<close> makes exactly one call of
  \<open>Node::render(dt, hovered, selected)\<close>, with its own arguments, whether the overlay is
  shown or hidden. So does every call of \<open>Sprite::render\<close> on a sprite whose \<open>cols\<close> is not
  zero and that does not have \<open>frame = INT_MIN\<close> with \<open>cols = -1\<close>, whatever \<open>rows\<close> is and
  whatever the \<open>float\<close> operations return.
\<close>

theorem render_calls_base_once:
  "base_renders (Chat_render c dt hov sel) = [Node_render dt hov sel] \<and>
   (cols s \<noteq> 0 \<and> \<not> (frame s = INT_MIN \<and> cols s = - 1) \<longrightarrow>
      (\<exists>calls. Sprite_render flt s rdt hov sel = Inr calls \<and>
         base_renders calls = [Node_render rdt hov sel]))"
proof (intro conjI impI)
  show "base_renders (Chat_render c dt hov sel) = [Node_render dt hov sel]"
    by (simp add: Chat_render_def base_renders_msgs) (simp add: base_renders_def)
next
  assume "cols s \<noteq> 0 \<and> \<not> (frame s = INT_MIN \<and> cols s = - 1)"
  then have "Sprite_render flt s rdt hov sel =
      Inr (projr (Sprite_render flt s rdt hov sel)) \<and>
      base_renders (projr (Sprite_render flt s rdt hov sel)) = [Node_render rdt hov sel]"
    by (auto simp add: Sprite_render_def Let_def base_renders_def)
  then show "\<exists>calls. Sprite_render flt s rdt hov sel = Inr calls \<and>
      base_renders calls = [Node_render rdt hov sel]"
    by blast
qed

lemma demo_render:
  "Chat_render demo_chat 16 None (Some 3) =
     [glColor3f 1 1 1, font_render 0 0 ''hi'', font_render 24 10 '':'',
      glColor3f 0 1 0, font_render 0 10 ''amy'', glColor3f 1 1 1,
      font_render 0 20 ''world'', font_render 0 30 ''there'',
      font_render 0 40 ''hello'', font_render 24 50 '':'', glColor3f 1 0 0,
      font_render 0 50 ''bob'', Node_render 16 None (Some 3)]"
  by code_simp

theorem render_calls_base_once_witness:
  "base_renders (Chat_render demo_chat 16 None (Some 3)) = [Node_render 16 None (Some 3)] \<and>
   base_renders (Chat_render (demo_chat\<lparr>showChat := False\<rparr>) 16 None (Some 3)) =
     [Node_render 16 None (Some 3)] \<and>
   length (Chat_render demo_chat 16 None (Some 3)) = 13 \<and>
   (\<exists>calls. Sprite_render real_of_int demo_sprite 16 None (Some 3) = Inr calls \<and>
      base_renders calls = [Node_render 16 None (Some 3)]) \<and>
   (\<exists>calls. Sprite_render real_of_int (demo_sprite\<lparr>rows := 0\<rparr>) 16 None (Some 3) = Inr calls \<and>
      base_renders calls = [Node_render 16 None (Some 3)])"
proof -
  have nz: "cols demo_sprite \<noteq> 0 \<and> \<not> (frame demo_sprite = INT_MIN \<and> cols demo_sprite = - 1)"
    by (simp add: demo_sprite_def)
  have nr: "cols (demo_sprite\<lparr>rows := 0\<rparr>) \<noteq> 0 \<and>
      \<not> (frame (demo_sprite\<lparr>rows := 0\<rparr>) = INT_MIN \<and> cols (demo_sprite\<lparr>rows := 0\<rparr>) = - 1)"
    by (simp add: demo_sprite_def)
  from render_calls_base_once [of demo_chat 16 None "Some 3" demo_sprite real_of_int 16] nz
  have 1: "base_renders (Chat_render demo_chat 16 None (Some 3)) = [Node_render 16 None (Some 3)]"
    and 2: "\<exists>calls. Sprite_render real_of_int demo_sprite 16 None (Some 3) = Inr calls \<and>
      base_renders calls = [Node_render 16 None (Some 3)]"
    by blast+
  from render_calls_base_once [of "demo_chat\<lparr>showChat := False\<rparr>" 16 None "Some 3"
      "demo_sprite\<lparr>rows := 0\<rparr>" real_of_int 16] nr
  have 3: "base_renders (Chat_render (demo_chat\<lparr>showChat := False\<rparr>) 16 None (Some 3)) =
     [Node_render 16 None (Some 3)]"
    and 4: "\<exists>calls. Sprite_render real_of_int (demo_sprite\<lparr>rows := 0\<rparr>) 16 None (Some 3) = Inr calls \<and>
      base_renders calls = [Node_render 16 None (Some 3)]"
    by blast+
  have 5: "length (Chat_render demo_chat 16 None (Some 3)) = 13"
    by (simp add: demo_render)
  from 1 2 3 4 5 show ?thesis by blast
qed

text \<open>
  The claim as stated fails on a sprite with \<open>cols = 0\<close>. \<open>Sprite::load\<close> takes the value
  from the stream as it is (only \<open>renderUi\<close> sets a value below one back to one), and the
  next \<open>render\<close> stops at \<open>frame % cols\<close>: the base class is not called. It fails in the
  same way on \<open>frame = INT_MIN\<close> with \<open>cols = -1\<close>.
\<close>

theorem render_cols_zero_counterexample:
  "Sprite_load (fresh demo_layout AnimSprite ''face.png'' 0)
       [I32 0, I32 2, I32 8, F32 0, F32 0, I32 0] =
     Inr (Node 0 AnimSprite ''face.png'' [I32 0, I32 2, I32 8] [F32 0, F32 0, I32 0] [], []) \<and>
   Sprite_render real_of_int (demo_sprite\<lparr>cols := 0\<rparr>) 16 None (Some 3) = Inl DivisionByZero \<and>
   Sprite_render real_of_int (demo_sprite\<lparr>frame := INT_MIN, cols := - 1\<rparr>) 16 None (Some 3) =
     Inl SignedOverflow"
  by (simp add: Sprite_render_def Sprite_load_def deser_this_def Node_load_def fresh_def
      demo_layout_def is_sprite_def)

section \<open>App::loadPrj: the fallback to a fresh project\<close>

text \<open>
  Claim C2. When the project file cannot be opened, or its stream starts with a
  \<open>uint32\<close> version other than the supported constant, \<open>loadPrj\<close> returns normally: the
  rest of the stream is not read, and the root becomes a fresh \<open>Root\<close> node without
  children; nothing else of the application changes but the allocation counter.
\<close>

theorem loadPrj_mismatch_gives_fresh_root:
  assumes "prj_file app = None \<or> (\<exists>v strm. prj_file app = Some (U32 v # strm) \<and> v \<noteq> ver)"
  shows "App_loadPrj L app =
           Inr (app\<lparr>scn := (scn app)\<lparr>root := Some (new_Root L (next_addr app))\<rparr>,
                    next_addr := next_addr app + 1\<rparr>) \<and>
         new_Root L (next_addr app) =
           Node (next_addr app) Root (Root_name L) (own_default L Root) (base_default L) []"
  using assms by (auto simp: App_loadPrj_def new_Root_def fresh_def)

theorem loadPrj_mismatch_gives_fresh_root_witness:
  "root (scn (projr (App_loadPrj demo_layout demo_app))) =
     Some (Node 0 Root ''root'' [] [F32 0, F32 0, I32 0] []) \<and>
   App_loadPrj demo_layout (demo_app\<lparr>prj_file := None\<rparr>) =
     Inr (demo_app\<lparr>scn := \<lparr>root = Some (Node 0 Root ''root'' [] [F32 0, F32 0, I32 0] []),
                              selected = None\<rparr>,
                    prj_file := None, next_addr := 1\<rparr>)"
proof -
  have a: "prj_file demo_app = None \<or>
      (\<exists>v strm. prj_file demo_app = Some (U32 v # strm) \<and> v \<noteq> ver)"
    by (simp add: demo_app_def ver_def)
  have b: "prj_file (demo_app\<lparr>prj_file := None\<rparr>) = None \<or>
      (\<exists>v strm. prj_file (demo_app\<lparr>prj_file := None\<rparr>) = Some (U32 v # strm) \<and> v \<noteq> ver)"
    by simp
  note m = conjunct1 [OF loadPrj_mismatch_gives_fresh_root [OF a, of demo_layout]]
    conjunct2 [OF loadPrj_mismatch_gives_fresh_root [OF a, of demo_layout]]
  note n = conjunct1 [OF loadPrj_mismatch_gives_fresh_root [OF b, of demo_layout]]
    conjunct2 [OF loadPrj_mismatch_gives_fresh_root [OF b, of demo_layout]]
  have 1: "root (scn (projr (App_loadPrj demo_layout demo_app))) =
     Some (Node 0 Root ''root'' [] [F32 0, F32 0, I32 0] [])"
    unfolding m by (simp add: demo_app_def demo_layout_def is_sprite_def)
  have 2: "App_loadPrj demo_layout (demo_app\<lparr>prj_file := None\<rparr>) =
     Inr (demo_app\<lparr>scn := \<lparr>root = Some (Node 0 Root ''root'' [] [F32 0, F32 0, I32 0] []),
                              selected = None\<rparr>,
                    prj_file := None, next_addr := 1\<rparr>)"
    unfolding n by (simp add: demo_app_def demo_layout_def is_sprite_def)
  from 1 2 show ?thesis by blast
qed

section \<open>The undo manager: undo inverts record\<close>

lemma undo_times_last:
  "undo_times n su = Inr su' \<Longrightarrow> undo_times (Suc n) su = Undo_undo su'"
proof (induction n arbitrary: su)
  case 0
  then show ?case by (simp split: sum.splits)
next
  case (Suc n)
  from Suc.prems obtain su1 where s1: "Undo_undo su = Inr su1" and r: "undo_times n su1 = Inr su'"
    by (auto split: sum.splits)
  from Suc.IH [OF r] have "undo_times (Suc n) su1 = Undo_undo su'" .
  with s1 show ?case by simp
qed

text \<open>
  Claim C3. Take any starting state and any sequence of \<open>N\<close> actions that keep the
  contract of the data model (each undo-closure inverts its do-closure in the state the
  do-closure left). After \<open>N\<close> calls of \<open>record\<close> and then \<open>N\<close> calls of \<open>undo\<close> the state is
  the one before the first \<open>record\<close>, and so is the done sequence; the undone sequence
  holds the \<open>N\<close> actions.
\<close>

theorem undo_inverts_records:
  assumes "inverse_at_record_time s acts"
  shows "\<exists>s' u'. record_all acts (s, u) = Inr (s', u') \<and>
           done_stack u' = rev acts @ done_stack u \<and>
           undo_times (length acts) (s', u') =
             Inr (s, \<lparr>done_stack = done_stack u,
                      undone_stack = (if acts = [] then undone_stack u else acts)\<rparr>)"
  using assms
proof (induction acts arbitrary: s u)
  case Nil
  show ?case by simp
next
  case (Cons act acts)
  from Cons.prems obtain s1 where d: "doFn act s = Inr s1"
    and inv: "undoFn act s1 = Inr s" and rest: "inverse_at_record_time s1 acts"
    by (auto split: sum.splits)
  define u1 where "u1 = \<lparr>done_stack = act # done_stack u, undone_stack = []\<rparr>"
  from d have rec1: "Undo_record act (s, u) = Inr (s1, u1)"
    by (simp add: Undo_record_def u1_def)
  from Cons.IH [OF rest, of u1] obtain s' u' where
    r: "record_all acts (s1, u1) = Inr (s', u')" and
    ds: "done_stack u' = rev acts @ done_stack u1" and
    un: "undo_times (length acts) (s', u') =
           Inr (s1, \<lparr>done_stack = done_stack u1,
                     undone_stack = (if acts = [] then undone_stack u1 else acts)\<rparr>)"
    by blast
  have mid: "(if acts = [] then undone_stack u1 else acts) = acts"
    by (simp add: u1_def)
  from undo_times_last [OF un] have
    "undo_times (Suc (length acts)) (s', u') =
       Undo_undo (s1, \<lparr>done_stack = done_stack u1, undone_stack = acts\<rparr>)"
    by (simp only: mid)
  also have "\<dots> = Inr (s, \<lparr>done_stack = done_stack u, undone_stack = act # acts\<rparr>)"
    by (simp add: Undo_undo_def u1_def inv)
  finally have fin: "undo_times (length (act # acts)) (s', u') =
      Inr (s, \<lparr>done_stack = done_stack u,
               undone_stack = (if act # acts = [] then undone_stack u else act # acts)\<rparr>)"
    by simp
  from rec1 r have "record_all (act # acts) (s, u) = Inr (s', u')" by simp
  moreover from ds have "done_stack u' = rev (act # acts) @ done_stack u"
    by (simp add: u1_def)
  ultimately show ?case using fin by blast
qed

theorem undo_inverts_records_witness:
  "inverse_at_record_time (0::int) [\<lparr>doFn = setX 5, undoFn = setX 0\<rparr>, \<lparr>doFn = setX 7, undoFn = setX 5\<rparr>] \<and>
   (\<exists>u'. record_all [\<lparr>doFn = setX 5, undoFn = setX 0\<rparr>, \<lparr>doFn = setX 7, undoFn = setX 5\<rparr>]
            (0, \<lparr>done_stack = [], undone_stack = []\<rparr>) = Inr (7, u') \<and>
          undo_times 2 (7, u') =
            Inr (0, \<lparr>done_stack = [],
                     undone_stack = [\<lparr>doFn = setX 5, undoFn = setX 0\<rparr>,
                                     \<lparr>doFn = setX 7, undoFn = setX 5\<rparr>]\<rparr>))"
proof -
  define acts where "acts = [\<lparr>doFn = setX 5, undoFn = setX 0\<rparr>, \<lparr>doFn = setX 7, undoFn = setX 5\<rparr>]"
  have c: "inverse_at_record_time (0::int) acts"
    by (simp add: acts_def setX_def)
  from undo_inverts_records [OF c, of "\<lparr>done_stack = [], undone_stack = []\<rparr>"]
  obtain s' u' where
    r: "record_all acts (0, \<lparr>done_stack = [], undone_stack = []\<rparr>) = Inr (s', u')" and
    u: "undo_times (length acts) (s', u') =
          Inr (0, \<lparr>done_stack = [], undone_stack = (if acts = [] then [] else acts)\<rparr>)"
    by auto
  from r have "s' = 7"
    by (simp add: acts_def Undo_record_def setX_def)
  moreover have "length acts = 2" by (simp add: acts_def)
  moreover have "(if acts = [] then [] else acts) = acts" by simp
  ultimately have "record_all acts (0, \<lparr>done_stack = [], undone_stack = []\<rparr>) = Inr (7, u') \<and>
      undo_times 2 (7, u') = Inr (0, \<lparr>done_stack = [], undone_stack = acts\<rparr>)"
    using r u by simp
  with c show ?thesis
    unfolding acts_def by blast
qed

section \<open>Project persistence: saving and loading a tree\<close>












lemma length_concat_member:
  "k \<in> set kids \<Longrightarrow> length (f k) \<le> length (concat (map f kids))"
  by (induction kids) auto


subsection \<open>Every tree of the application is well formed\<close>






























lemma demo_reload:
  "root (scn (projr (App_loadPrj demo_layout (App_savePrj demo_project)))) =
     Some (Node 20 Root ''root'' [] [F32 0, F32 0, I32 0]
       [Node 21 Chat ''mika314'' [I32 30, Flag True] [F32 1, F32 2, I32 1] [],
        Node 22 AnimSprite ''face.png'' [I32 4, I32 2, I32 8] [F32 3, F32 4, I32 2]
          [Node 23 Bouncer2 ''bouncer'' [] [F32 5, F32 6, I32 3] []]])"
  by code_simp

section \<open>App::addNode\<close>

text \<open>
  Claim C4. When the factory fails with a \<open>std::runtime_error\<close>, \<open>addNode\<close> returns
  normally and commits nothing: the tree, the selection, the undo manager, the dialog
  and the files are as before, and one action is appended to \<open>postponedActions\<close>. That action refers to
  the caught exception, which is no longer alive when \<open>addNode\<close> has returned: running
  the action reads a destroyed object instead of opening the dialog with the error. Had
  the exception still been alive, the action would have opened the dialog.
\<close>

theorem addNode_failure_commits_nothing:
  assumes "SaveFactory_ctor L (files app) clsName nm (next_addr app) = Inl (RuntimeError what)"
  shows "\<exists>app'. App_addNode L clsName nm app = Inr app' \<and>
           scn app' = scn app \<and> undo_mgr app' = undo_mgr app \<and> dialog app' = dialog app \<and>
           files app' = files app \<and>
           postponedActions app' = postponedActions app @ [ShowError (next_exception app)] \<and>
           exceptions app' (next_exception app) = None \<and>
           run_action (ShowError (next_exception app)) app' = Inl UseAfterFree \<and>
           run_action (ShowError (next_exception app))
               (app'\<lparr>exceptions := (exceptions app')(next_exception app \<mapsto> what)\<rparr>) =
             Inr (app'\<lparr>exceptions := (exceptions app')(next_exception app \<mapsto> what),
                       dialog := Some (MessageDialog ''Error'' what)\<rparr>)"
  using assms by (simp add: App_addNode_def Let_def)

theorem addNode_failure_commits_nothing_witness:
  "SaveFactory_ctor demo_layout (files demo_stage) ''Sprite'' ''face.png'' (next_addr demo_stage) =
     Inl (RuntimeError ''unknown class: Sprite'') \<and>
   (\<exists>app'. App_addNode demo_layout ''Sprite'' ''face.png'' demo_stage = Inr app' \<and>
      scn app' = scn demo_stage \<and> undo_mgr app' = undo_mgr demo_stage \<and>
      postponedActions app' = [ShowError 0] \<and>
      dialog app' = None \<and>
      App_runPostponed app' = Inl UseAfterFree)"
proof -
  have f: "SaveFactory_ctor demo_layout (files demo_stage) ''Sprite'' ''face.png'' (next_addr demo_stage) =
     Inl (RuntimeError ''unknown class: Sprite'')"
    by (simp add: SaveFactory_ctor_def registered_def)
  from addNode_failure_commits_nothing [OF f] obtain app' where
    a: "App_addNode demo_layout ''Sprite'' ''face.png'' demo_stage = Inr app'"
      "scn app' = scn demo_stage" "undo_mgr app' = undo_mgr demo_stage"
      "dialog app' = dialog demo_stage"
      "postponedActions app' = postponedActions demo_stage @ [ShowError (next_exception demo_stage)]"
      "run_action (ShowError (next_exception demo_stage)) app' = Inl UseAfterFree"
    by blast
  have q: "postponedActions demo_stage = []" "next_exception demo_stage = 0"
      "dialog demo_stage = None"
    by (simp_all add: demo_stage_def demo_app_def)
  from a(5,6) q have "App_runPostponed app' = Inl UseAfterFree"
    by (simp add: App_runPostponed_def)
  with a q f show ?thesis by auto
qed

text \<open>
  Deleting a freshly added node restores the tree, so the undo-closure of \<open>addNode\<close>
  inverts the do-closure in the state the do-closure left.
\<close>

lemma del_absent: "x \<notin> set (addrs t) \<Longrightarrow> Node_del x t = t"
proof (induction t)
  case (Node a c nm ps bs kids)
  have "filter (\<lambda>k. addr k \<noteq> x) kids = kids"
  proof (rule filter_True, rule ballI)
    fix k assume k: "k \<in> set kids"
    obtain ka kc knm kps kbs kks where "k = Node ka kc knm kps kbs kks" by (cases k)
    with k Node.prems show "addr k \<noteq> x" by auto
  qed
  moreover have "map (Node_del x) kids = kids"
    using Node by (auto intro: map_idI)
  ultimately show ?case by simp
qed

lemma del_after_addChild:
  assumes "addr n \<notin> set (addrs t)"
  shows "Node_del (addr n) (Node_addChild p n t) = t"
  using assms
proof (induction t)
  case (Node a c nm ps bs kids)
  have keep: "filter (\<lambda>k. addr k \<noteq> addr n) kids = kids"
  proof (rule filter_True, rule ballI)
    fix k assume k: "k \<in> set kids"
    obtain ka kc knm kps kbs kks where "k = Node ka kc knm kps kbs kks" by (cases k)
    with k Node.prems show "addr k \<noteq> addr n" by auto
  qed
  have same: "map (Node_del (addr n)) kids = kids"
    using Node.prems by (auto intro!: map_idI del_absent)
  show ?case
  proof (cases "a = p")
    case True
    with keep same show ?thesis by simp
  next
    case False
    have top: "addr (Node_addChild p n k) = addr k" for k
      by (cases k) simp
    have "map (Node_del (addr n)) (filter (\<lambda>k. addr k \<noteq> addr n) (map (Node_addChild p n) kids))
        = map (Node_del (addr n)) (map (Node_addChild p n) (filter (\<lambda>k. addr k \<noteq> addr n) kids))"
      by (simp add: filter_map comp_def top)
    also have "\<dots> = map (\<lambda>k. Node_del (addr n) (Node_addChild p n k)) kids"
      by (simp add: keep comp_def)
    also have "\<dots> = kids"
      using Node by (auto intro!: map_idI)
    finally show ?thesis using False by simp
  qed
qed

lemma addNode_undo_inverts_at_record_time:
  assumes "root s = Some t" "addr node \<notin> set (addrs t)"
  shows "\<exists>s'. addNode_do node (Some p) s = Inr s' \<and> addNode_undo (selected s) s' = Inr s"
  using assms by (simp add: addNode_do_def addNode_undo_def del_after_addChild)

text \<open>
  Claim C5, at a concrete stage: a root with one child \<open>A\<close> and no selection, to which
  \<open>addNode\<close> adds \<open>B\<close>. Run in the state that the do-closure left, the recorded
  undo-closure gives back the state at record time. Run after the selection has moved to
  \<open>A\<close>, it removes \<open>A\<close> and leaves \<open>B\<close> in the tree. After the Delete key, which clears
  the selection without an undo record, Ctrl+Z makes it dereference a null \<open>selected\<close>.
\<close>

theorem addNode_undo_follows_selection:
  "\<exists>app1 act.
     App_addNode demo_layout ''Bouncer2'' ''b'' demo_stage = Inr app1 \<and>
     done_stack (undo_mgr app1) = [act] \<and>
     scn app1 = \<lparr>root = Some (stage_root [node_A, node_B]), selected = Some 2\<rparr> \<and>
     undoFn act (scn app1) = Inr (scn demo_stage) \<and>
     undoFn act ((scn app1)\<lparr>selected := Some 1\<rparr>) =
       Inr \<lparr>root = Some (stage_root [node_B]), selected = None\<rparr> \<and>
     scn (App_deleteKey app1) = \<lparr>root = Some (stage_root [node_A]), selected = None\<rparr> \<and>
     done_stack (undo_mgr (App_deleteKey app1)) = [act] \<and>
     App_undoKey (App_deleteKey app1) = Inl NullDeref"
  by (simp add: App_addNode_def SaveFactory_ctor_def registered_def make_node_def fresh_def
      demo_layout_def is_sprite_def Undo_record_def addNode_do_def addNode_undo_def demo_stage_def demo_app_def
      stage_root_def node_A_def node_B_def App_deleteKey_def App_undoKey_def Undo_undo_def Let_def)

end
